theory Spec2Isabelle
  imports Main "HOL-Library.Word" "HOL-Library.Sublist"
begin

section \<open>The data loader of \<open>data_loader.go\<close>\<close>

text \<open>
  The loader batches and caches requests. Its Go code runs on several goroutines that
  share one mutex. The embedding keeps every method, and every function the loader
  starts with \<open>go\<close>, as one function from the loader's state to the new state, and
  lets a schedule (a list of events) decide the order in which callers and started
  goroutines take their turn. A turn is not interrupted: the methods and \<open>startTimer\<close>
  work under the mutex, \<open>end\<close> works on a batch that no other goroutine writes to any
  more, and the part of a thunk before it takes the mutex only reads a completed batch.
  Time is left out: the turn of a timer comes at any later point of the schedule.
\<close>

subsection \<open>Values of the Go program\<close>

text \<open>
  A \<open>*V\<close> is the nil pointer or the address of a cell of the store of \<open>V\<close> values
  (field \<open>heap\<close> below, an address is an index of that list).
\<close>

datatype ptr = NilPtr | Ref nat

text \<open>
  An \<open>error\<close> of the fetch function is a value with a message; \<open>errors.Join\<close> of the
  standard library wraps a non-empty list of errors. A nil \<open>error\<close> is \<open>None\<close>.
\<close>

datatype err = Err string | JoinErr "err list"

datatype panic = NilDereference | IndexOutOfRange | CloseOfClosedChannel

text \<open>The two functions the loader starts with a \<open>go\<close> statement, each on a batch.\<close>

datatype task = StartTimer nat | End nat

text \<open>
  The closures \<open>LoadThunk\<close> returns: the one that captured the cached pointer \<open>it\<close>, and
  the one that captured \<open>batch\<close>, \<open>pos\<close> and \<open>key\<close>. A batch is named by its index in
  the store of batches.
\<close>

datatype 'k thunk = Resolved ptr | Pending nat nat 'k

text \<open>
  The batch. \<open>done_ch\<close> is the channel \<open>done\<close>: \<open>True\<close> once it is closed.
\<close>

record 'k genericLoaderBatch =
  keys :: "'k list"
  data :: "ptr list"
  error :: "err option list"
  closing :: bool
  done_ch :: bool

text \<open>
  The fields of \<open>genericLoader\<close> up to \<open>mu\<close> are the fields of the Go struct
  (\<open>mu\<close> is \<open>True\<close> while the mutex is locked, \<open>batch\<close> is the pointer to the current
  batch). The others are the rest of the program's state: the batches allocated so
  far, the cells \<open>*V\<close> pointers point to, the goroutines started and not yet run.
  \<open>calls\<close> is a history: one entry for each invocation of \<open>fetch\<close>, with the keys
  passed and whether the goroutine that makes the call holds the mutex (an event below
  is one goroutine's turn, so \<open>mu\<close> is set during an event only by that goroutine).
  \<open>issued\<close> lists the thunks handed out to callers.

  The fetch function is the caller's: it is given the keys and the store of values, in
  which it may allocate its results.
\<close>

record ('k, 'v) genericLoader =
  fetch :: "'k list \<Rightarrow> 'v list \<Rightarrow> (ptr list \<times> err option list) \<times> 'v list"
  wait :: nat
  maxBatch :: "64 word"
  cache :: "'k \<rightharpoonup> ptr"
  batch :: "nat option"
  mu :: bool
  batches :: "'k genericLoaderBatch list"
  heap :: "'v list"
  goroutines :: "task list"
  calls :: "('k list \<times> bool) list"
  issued :: "'k thunk list"

definition NewDataLoader ::
  "('k list \<Rightarrow> 'v list \<Rightarrow> (ptr list \<times> err option list) \<times> 'v list) \<Rightarrow> nat \<Rightarrow> 64 word
     \<Rightarrow> 'v list \<Rightarrow> ('k, 'v) genericLoader" where
  "NewDataLoader fetchFn waitDuration maxBatch0 h =
     \<lparr>fetch = fetchFn, wait = waitDuration, maxBatch = maxBatch0,
      cache = Map.empty, batch = None, mu = False,
      batches = [], heap = h, goroutines = [], calls = [], issued = []\<rparr>"

subsection \<open>Go primitives\<close>

definition lock :: "('k, 'v) genericLoader \<Rightarrow> ('k, 'v) genericLoader" where
  "lock l = l\<lparr>mu := True\<rparr>"

definition unlock :: "('k, 'v) genericLoader \<Rightarrow> ('k, 'v) genericLoader" where
  "unlock l = l\<lparr>mu := False\<rparr>"

definition go :: "task \<Rightarrow> ('k, 'v) genericLoader \<Rightarrow> ('k, 'v) genericLoader" where
  "go t l = l\<lparr>goroutines := goroutines l @ [t]\<rparr>"

text \<open>
  \<open>xs[i]\<close> panics out of range; \<open>*p\<close> panics on nil (a Go pointer that is not nil points
  to a cell: an address outside the store does not occur).
\<close>

definition go_index :: "'a list \<Rightarrow> nat \<Rightarrow> panic + 'a" where
  "go_index xs i = (if i < length xs then Inr (xs ! i) else Inl IndexOutOfRange)"

definition deref :: "'v list \<Rightarrow> ptr \<Rightarrow> panic + 'v" where
  "deref h p = (case p of NilPtr \<Rightarrow> Inl NilDereference | Ref a \<Rightarrow> go_index h a)"

text \<open>
  \<open>errors.Join\<close> drops the nil errors, returns nil when none is left, and a
  \<open>joinError\<close> of the others otherwise. The message of a \<open>joinError\<close> is its
  errors' messages, one per line.
\<close>

fun non_nil :: "'a option list \<Rightarrow> 'a list" where
  "non_nil [] = []"
| "non_nil (None # rest) = non_nil rest"
| "non_nil (Some x # rest) = x # non_nil rest"

definition errors_Join :: "err option list \<Rightarrow> err option" where
  "errors_Join errs = (let es = non_nil errs in if es = [] then None else Some (JoinErr es))"

fun join_lines :: "string list \<Rightarrow> string" where
  "join_lines [] = []"
| "join_lines [m] = m"
| "join_lines (m # ms) = m @ [CHR 0x0A] @ join_lines ms"

fun Error :: "err \<Rightarrow> string" where
  "Error (Err m) = m"
| "Error (JoinErr es) = join_lines (map Error es)"

text \<open>
  What \<open>errors.Is\<close> walks through: an error, and the errors a \<open>joinError\<close> wraps,
  recursively.
\<close>

fun unwrap_all :: "err \<Rightarrow> err list" where
  "unwrap_all (Err m) = [Err m]"
| "unwrap_all (JoinErr es) = JoinErr es # concat (map unwrap_all es)"

subsection \<open>The loader's methods\<close>

definition upd_batch ::
  "nat \<Rightarrow> ('k genericLoaderBatch \<Rightarrow> 'k genericLoaderBatch) \<Rightarrow> ('k, 'v) genericLoader
     \<Rightarrow> ('k, 'v) genericLoader" where
  "upd_batch b f l = l\<lparr>batches := (batches l)[b := f (batches l ! b)]\<rparr>"

definition unsafeSet :: "'k \<Rightarrow> ptr \<Rightarrow> ('k, 'v) genericLoader \<Rightarrow> ('k, 'v) genericLoader" where
  "unsafeSet key val l = l\<lparr>cache := (cache l)(key \<mapsto> val)\<rparr>"

text \<open>The search loop of \<open>keyIndex\<close>: the first index that holds the key.\<close>

fun find_key :: "'k \<Rightarrow> 'k list \<Rightarrow> nat option" where
  "find_key key [] = None"
| "find_key key (existingKey # rest) =
     (if key = existingKey then Some 0 else map_option Suc (find_key key rest))"

definition keyIndex ::
  "nat \<Rightarrow> 'k \<Rightarrow> ('k, 'v) genericLoader \<Rightarrow> nat \<times> ('k, 'v) genericLoader" where
  "keyIndex b key l =
     (case find_key key (keys (batches l ! b)) of
        Some i \<Rightarrow> (i, l)
      | None \<Rightarrow>
          (let pos = length (keys (batches l ! b));
               l1 = upd_batch b (\<lambda>bt. bt\<lparr>keys := keys bt @ [key]\<rparr>) l;
               l2 = (if pos = 0 then go (StartTimer b) l1 else l1);
               l3 = (if maxBatch l2 \<noteq> 0 \<and> sint (maxBatch l2 - 1) \<le> int pos
                     then (if \<not> closing (batches l2 ! b)
                           then go (End b)
                                  ((upd_batch b (\<lambda>bt. bt\<lparr>closing := True\<rparr>) l2)\<lparr>batch := None\<rparr>)
                           else l2)
                     else l2)
           in (pos, l3)))"

text \<open>
  \<open>end\<close>: the fetch call, recorded in \<open>calls\<close>, then \<open>close(b.done)\<close>, which panics on
  a channel already closed.
\<close>

definition end_batch :: "nat \<Rightarrow> ('k, 'v) genericLoader \<Rightarrow> panic + ('k, 'v) genericLoader" where
  "end_batch b l =
     (let bt = batches l ! b;
          res = fetch l (keys bt) (heap l);
          l1 = (upd_batch b (\<lambda>bt. bt\<lparr>data := fst (fst res), error := snd (fst res)\<rparr>) l)
                 \<lparr>heap := snd res, calls := calls l @ [(keys bt, mu l)]\<rparr>
      in if done_ch bt then Inl CloseOfClosedChannel
         else Inr (upd_batch b (\<lambda>bt. bt\<lparr>done_ch := True\<rparr>) l1))"

text \<open>\<open>startTimer\<close>, from the moment \<open>time.Sleep\<close> returns.\<close>

definition startTimer :: "nat \<Rightarrow> ('k, 'v) genericLoader \<Rightarrow> panic + ('k, 'v) genericLoader" where
  "startTimer b l0 =
     (let l = lock l0 in
      if closing (batches l ! b) then Inr (unlock l)
      else (case end_batch b (l\<lparr>batch := None\<rparr>) of
              Inl p \<Rightarrow> Inl p
            | Inr l1 \<Rightarrow> Inr (unlock l1)))"

definition LoadThunk :: "'k \<Rightarrow> ('k, 'v) genericLoader \<Rightarrow> 'k thunk \<times> ('k, 'v) genericLoader" where
  "LoadThunk key l0 =
     (let l = lock l0 in
      case cache l key of
        Some it \<Rightarrow> (Resolved it, unlock l)
      | None \<Rightarrow>
          (let (b, l1) =
                 (case batch l of
                    None \<Rightarrow>
                      (length (batches l),
                       l\<lparr>batches := batches l @
                            [\<lparr>keys = [], data = [], error = [], closing = False, done_ch = False\<rparr>],
                         batch := Some (length (batches l))\<rparr>)
                  | Some b \<Rightarrow> (b, l));
               (pos, l2) = keyIndex b key l1
           in (Pending b pos key, unlock l2)))"

text \<open>The loop of the thunk over \<open>batch.error\<close>.\<close>

fun join_errors :: "err option \<Rightarrow> err option list \<Rightarrow> err option" where
  "join_errors errs [] = errs"
| "join_errors errs (e # rest) =
     (case e of
        None \<Rightarrow> join_errors errs rest
      | Some x \<Rightarrow> join_errors (errors_Join [errs, Some x]) rest)"

text \<open>
  Calling a thunk. \<open>None\<close>: the caller is blocked on \<open>batch.done\<close>, a channel not yet
  closed.
\<close>

definition call_thunk ::
  "'k thunk \<Rightarrow> ('k, 'v) genericLoader
     \<Rightarrow> (panic + (ptr \<times> err option) \<times> ('k, 'v) genericLoader) option" where
  "call_thunk t l =
     (case t of
        Resolved it \<Rightarrow> Some (Inr ((it, None), l))
      | Pending b pos key \<Rightarrow>
          (let bt = batches l ! b in
           if \<not> done_ch bt then None
           else
             (case (if pos < length (data bt) then go_index (data bt) pos else Inr NilPtr) of
                Inl p \<Rightarrow> Some (Inl p)
              | Inr d \<Rightarrow>
                  (case join_errors None (error bt) of
                     Some errs \<Rightarrow> Some (Inr ((d, Some errs), l))
                   | None \<Rightarrow> Some (Inr ((d, None), unlock (unsafeSet key d (lock l))))))))"


definition Prime ::
  "'k \<Rightarrow> ptr \<Rightarrow> ('k, 'v) genericLoader \<Rightarrow> panic + bool \<times> ('k, 'v) genericLoader" where
  "Prime key val l0 =
     (let l = lock l0 in
      case cache l key of
        Some it \<Rightarrow> Inr (False, unlock l)
      | None \<Rightarrow>
          (case deref (heap l) val of
             Inl p \<Rightarrow> Inl p
           | Inr cpy \<Rightarrow>
               Inr (True,
                    unlock (unsafeSet key (Ref (length (heap l))) (l\<lparr>heap := heap l @ [cpy]\<rparr>)))))"

definition Clear :: "'k \<Rightarrow> ('k, 'v) genericLoader \<Rightarrow> ('k, 'v) genericLoader" where
  "Clear key l0 = (let l = lock l0 in unlock (l\<lparr>cache := (cache l)(key := None)\<rparr>))"

subsection \<open>Schedules\<close>

text \<open>
  What can happen next: a caller calls a method or the \<open>n\<close>-th thunk handed out, or
  a goroutine started earlier runs. \<open>step\<close> is \<open>None\<close> when the event cannot take
  place in this state (the thunk is blocked, no such goroutine is waiting to run),
  \<open>Some (Inl p)\<close> when the program panics.
\<close>

datatype 'k event =
  Call_LoadThunk 'k | Call_thunk nat | Call_Prime 'k ptr | Call_Clear 'k | Run task

definition step ::
  "'k event \<Rightarrow> ('k, 'v) genericLoader \<Rightarrow> (panic + ('k, 'v) genericLoader) option" where
  "step e l =
     (case e of
        Call_LoadThunk key \<Rightarrow>
          (case LoadThunk key l of (t, l1) \<Rightarrow> Some (Inr (l1\<lparr>issued := issued l1 @ [t]\<rparr>)))
      | Call_thunk n \<Rightarrow>
          (if n < length (issued l)
           then (case call_thunk (issued l ! n) l of
                   None \<Rightarrow> None
                 | Some (Inl p) \<Rightarrow> Some (Inl p)
                 | Some (Inr (r, l1)) \<Rightarrow> Some (Inr l1))
           else None)
      | Call_Prime key val \<Rightarrow>
          (case Prime key val l of Inl p \<Rightarrow> Some (Inl p) | Inr (ok, l1) \<Rightarrow> Some (Inr l1))
      | Call_Clear key \<Rightarrow> Some (Inr (Clear key l))
      | Run t \<Rightarrow>
          (if t \<in> set (goroutines l)
           then (let l1 = l\<lparr>goroutines := remove1 t (goroutines l)\<rparr> in
                 case t of
                   StartTimer b \<Rightarrow> Some (startTimer b l1)
                 | End b \<Rightarrow> Some (end_batch b l1))
           else None))"

fun run ::
  "'k event list \<Rightarrow> ('k, 'v) genericLoader \<Rightarrow> (panic + ('k, 'v) genericLoader) option" where
  "run [] l = Some (Inr l)"
| "run (e # es) l =
     (case step e l of
        Some (Inr l1) \<Rightarrow> run es l1
      | r \<Rightarrow> r)"

subsection \<open>LoadAll\<close>




section \<open>The generated loader: aggregate errors and their default format\<close>














section \<open>Consistent states\<close>

text \<open>
  The batch a goroutine works on, and the capacity test of \<open>keyIndex\<close> at position
  \<open>pos\<close>.
\<close>

fun task_batch :: "task \<Rightarrow> nat" where
  "task_batch (StartTimer b) = b"
| "task_batch (End b) = b"

definition full :: "('k, 'v) genericLoader \<Rightarrow> nat \<Rightarrow> bool" where
  "full l pos \<longleftrightarrow> maxBatch l \<noteq> 0 \<and> sint (maxBatch l - 1) \<le> int pos"

text \<open>
  What holds of the loader between two events. The mutex is free; the current batch is
  allocated, open and not full. The keys of every batch are distinct, and at most
  \<open>maxBatch\<close> when that is positive; so are the keys of every fetch call made. The
  goroutines not yet run are exactly those the batches still need: \<open>End\<close> for a batch
  closed by capacity and not completed, \<open>StartTimer\<close> for an open batch, which is the
  current one; a batch completed by its timer has no timer left.
\<close>

definition cur_ok :: "('k, 'v) genericLoader \<Rightarrow> bool" where
  "cur_ok l \<longleftrightarrow>
     \<not> mu l \<and>
     (\<forall>b. batch l = Some b \<longrightarrow>
        b < length (batches l) \<and> \<not> closing (batches l ! b) \<and> \<not> done_ch (batches l ! b)
        \<and> \<not> full l (length (keys (batches l ! b)) - 1))"

definition keys_ok :: "('k, 'v) genericLoader \<Rightarrow> bool" where
  "keys_ok l \<longleftrightarrow>
     (\<forall>bt \<in> set (batches l). distinct (keys bt) \<and> keys bt \<noteq> []
        \<and> (0 < sint (maxBatch l) \<longrightarrow> int (length (keys bt)) \<le> sint (maxBatch l)))"

definition calls_ok :: "('k, 'v) genericLoader \<Rightarrow> bool" where
  "calls_ok l \<longleftrightarrow>
     (\<forall>c \<in> set (calls l). distinct (fst c) \<and> fst c \<noteq> []
        \<and> (0 < sint (maxBatch l) \<longrightarrow> int (length (fst c)) \<le> sint (maxBatch l)))"

definition tasks_ok :: "('k, 'v) genericLoader \<Rightarrow> bool" where
  "tasks_ok l \<longleftrightarrow>
     distinct (goroutines l) \<and>
     (\<forall>t \<in> set (goroutines l). task_batch t < length (batches l)) \<and>
     (\<forall>b < length (batches l).
        (End b \<in> set (goroutines l) \<longleftrightarrow> closing (batches l ! b) \<and> \<not> done_ch (batches l ! b)) \<and>
        (\<not> closing (batches l ! b) \<and> \<not> done_ch (batches l ! b) \<longrightarrow>
           StartTimer b \<in> set (goroutines l) \<and> batch l = Some b) \<and>
        (\<not> closing (batches l ! b) \<and> done_ch (batches l ! b) \<longrightarrow>
           StartTimer b \<notin> set (goroutines l)))"

definition loader_ok :: "('k, 'v) genericLoader \<Rightarrow> bool" where
  "loader_ok l \<longleftrightarrow> cur_ok l \<and> keys_ok l \<and> calls_ok l \<and> tasks_ok l"




section \<open>Example loaders\<close>

text \<open>
  Fetch functions in the style of the repository's tests, over \<open>int\<close> keys (here
  \<open>nat\<close>) and string values: one that fails at its second position, one that
  returns nothing, one that returns a letter for each key.
\<close>

definition fetch_boom ::
  "nat list \<Rightarrow> string list \<Rightarrow> (ptr list \<times> err option list) \<times> string list" where
  "fetch_boom ks h = (([Ref (length h), NilPtr], [None, Some (Err ''boom'')]), h @ [''A''])"

definition fetch_short ::
  "nat list \<Rightarrow> string list \<Rightarrow> (ptr list \<times> err option list) \<times> string list" where
  "fetch_short ks h = (([], []), h)"

definition letter :: "nat \<Rightarrow> string" where
  "letter k = [char_of (65 + k)]"

definition fetch_letters ::
  "nat list \<Rightarrow> string list \<Rightarrow> (ptr list \<times> err option list) \<times> string list" where
  "fetch_letters ks h =
     ((map (\<lambda>i. Ref (length h + i)) [0..<length ks], map (\<lambda>k. None) ks),
      h @ map letter ks)"

text \<open>The loader after \<open>LoadThunk(1)\<close>, \<open>LoadThunk(2)\<close> and the timer, with \<open>fetch_boom\<close>.\<close>

definition ex_failed :: "(nat, string) genericLoader" where
  "ex_failed =
     \<lparr>fetch = fetch_boom, wait = 5, maxBatch = 10,
      cache = Map.empty, batch = None, mu = False,
      batches = [\<lparr>keys = [1, 2], data = [Ref 0, NilPtr], error = [None, Some (Err ''boom'')],
                  closing = False, done_ch = True\<rparr>],
      heap = [''A''], goroutines = [], calls = [([1, 2], True)],
      issued = [Pending 0 0 1, Pending 0 1 2]\<rparr>"

text \<open>
  The same with a fetch function that fails at both positions with the same message.
\<close>

definition fetch_booms ::
  "nat list \<Rightarrow> string list \<Rightarrow> (ptr list \<times> err option list) \<times> string list" where
  "fetch_booms ks h = (([NilPtr, NilPtr], [Some (Err ''boom''), Some (Err ''boom'')]), h)"

definition ex_booms :: "(nat, string) genericLoader" where
  "ex_booms =
     \<lparr>fetch = fetch_booms, wait = 5, maxBatch = 10,
      cache = Map.empty, batch = None, mu = False,
      batches = [\<lparr>keys = [1, 2], data = [NilPtr, NilPtr],
                  error = [Some (Err ''boom''), Some (Err ''boom'')],
                  closing = False, done_ch = True\<rparr>],
      heap = [], goroutines = [], calls = [([1, 2], True)],
      issued = [Pending 0 0 1, Pending 0 1 2]\<rparr>"

text \<open>The loader after \<open>LoadThunk(7)\<close>, with \<open>fetch_short\<close>: the batch waits for its timer.\<close>

definition ex_waiting :: "(nat, string) genericLoader" where
  "ex_waiting =
     \<lparr>fetch = fetch_short, wait = 5, maxBatch = 10,
      cache = Map.empty, batch = Some 0, mu = False,
      batches = [\<lparr>keys = [7], data = [], error = [], closing = False, done_ch = False\<rparr>],
      heap = [], goroutines = [StartTimer 0], calls = [],
      issued = [Pending 0 0 7]\<rparr>"

text \<open>The loader after \<open>LoadThunk(7)\<close> and the timer, with \<open>fetch_short\<close>.\<close>

definition ex_short :: "(nat, string) genericLoader" where
  "ex_short =
     \<lparr>fetch = fetch_short, wait = 5, maxBatch = 10,
      cache = Map.empty, batch = None, mu = False,
      batches = [\<lparr>keys = [7], data = [], error = [], closing = False, done_ch = True\<rparr>],
      heap = [], goroutines = [], calls = [([7], True)],
      issued = [Pending 0 0 7]\<rparr>"

text \<open>A new loader in a store that holds one string, and the same after \<open>Prime(1, &s)\<close>.\<close>

definition ex_new :: "(nat, string) genericLoader" where
  "ex_new = NewDataLoader fetch_letters 1 10 [''Primed'']"

definition ex_primed :: "(nat, string) genericLoader" where
  "ex_primed =
     \<lparr>fetch = fetch_letters, wait = 1, maxBatch = 10,
      cache = [1 \<mapsto> Ref 1], batch = None, mu = False,
      batches = [], heap = [''Primed'', ''Primed''], goroutines = [], calls = [],
      issued = []\<rparr>"

text \<open>Two distinct keys and a repeated one in an open batch.\<close>

definition ex_open :: "(nat, string) genericLoader" where
  "ex_open =
     \<lparr>fetch = fetch_letters, wait = 5, maxBatch = 10,
      cache = Map.empty, batch = Some 0, mu = False,
      batches = [\<lparr>keys = [0, 1], data = [], error = [], closing = False, done_ch = False\<rparr>],
      heap = [], goroutines = [StartTimer 0], calls = [],
      issued = [Pending 0 0 0, Pending 0 1 1, Pending 0 0 0]\<rparr>"

text \<open>With \<open>maxBatch = 2\<close>, as in the repository's test of the batch limit: after a first key,\<close>

definition ex_one :: "(nat, string) genericLoader" where
  "ex_one =
     \<lparr>fetch = fetch_letters, wait = 50, maxBatch = 2,
      cache = Map.empty, batch = Some 0, mu = False,
      batches = [\<lparr>keys = [0], data = [], error = [], closing = False, done_ch = False\<rparr>],
      heap = [], goroutines = [StartTimer 0], calls = [],
      issued = [Pending 0 0 0]\<rparr>"

text \<open>after a second key, which fills the batch,\<close>

definition ex_two :: "(nat, string) genericLoader" where
  "ex_two =
     \<lparr>fetch = fetch_letters, wait = 50, maxBatch = 2,
      cache = Map.empty, batch = None, mu = False,
      batches = [\<lparr>keys = [0, 1], data = [], error = [], closing = True, done_ch = False\<rparr>],
      heap = [], goroutines = [StartTimer 0, End 0], calls = [],
      issued = [Pending 0 0 0]\<rparr>"

text \<open>and after a third key, once all goroutines have run.\<close>

definition ex_capped :: "(nat, string) genericLoader" where
  "ex_capped =
     \<lparr>fetch = fetch_letters, wait = 50, maxBatch = 2,
      cache = Map.empty, batch = None, mu = False,
      batches = [\<lparr>keys = [0, 1], data = [Ref 0, Ref 1], error = [None, None],
                  closing = True, done_ch = True\<rparr>,
                 \<lparr>keys = [2], data = [Ref 2], error = [None], closing = False, done_ch = True\<rparr>],
      heap = [''A'', ''B'', ''C''], goroutines = [], calls = [([0, 1], False), ([2], True)],
      issued = [Pending 0 0 0, Pending 0 1 1, Pending 1 0 2]\<rparr>"

text \<open>With \<open>maxBatch = 0\<close>: three keys in one batch, completed by its timer.\<close>

definition ex_nocap :: "(nat, string) genericLoader" where
  "ex_nocap =
     \<lparr>fetch = fetch_letters, wait = 50, maxBatch = 0,
      cache = Map.empty, batch = None, mu = False,
      batches = [\<lparr>keys = [0, 1, 2], data = [Ref 0, Ref 1, Ref 2], error = [None, None, None],
                  closing = False, done_ch = True\<rparr>],
      heap = [''A'', ''B'', ''C''], goroutines = [], calls = [([0, 1, 2], True)],
      issued = [Pending 0 0 0, Pending 0 1 1, Pending 0 2 2]\<rparr>"


section \<open>Properties\<close>

subsection \<open>The example states are states of the program\<close>

lemma letter_values:
  "letter 0 = ''A''" "letter (Suc 0) = ''B''" "letter 2 = ''C''" "letter (Suc (Suc 0)) = ''C''"
  by code_simp+

lemma ex_failed_reached:
  "run [Call_LoadThunk 1, Call_LoadThunk 2, Run (StartTimer 0)] (NewDataLoader fetch_boom 5 10 [])
     = Some (Inr ex_failed)"
  by (simp add: ex_failed_def NewDataLoader_def step_def LoadThunk_def keyIndex_def
      startTimer_def end_batch_def fetch_boom_def lock_def unlock_def upd_batch_def go_def)

lemma ex_booms_reached:
  "run [Call_LoadThunk 1, Call_LoadThunk 2, Run (StartTimer 0)] (NewDataLoader fetch_booms 5 10 [])
     = Some (Inr ex_booms)"
  by (simp add: ex_booms_def NewDataLoader_def step_def LoadThunk_def keyIndex_def
      startTimer_def end_batch_def fetch_booms_def lock_def unlock_def upd_batch_def go_def)

lemma ex_short_reached:
  "run [Call_LoadThunk 7, Run (StartTimer 0)] (NewDataLoader fetch_short 5 10 [])
     = Some (Inr ex_short)"
  by (simp add: ex_short_def NewDataLoader_def step_def LoadThunk_def keyIndex_def
      startTimer_def end_batch_def fetch_short_def lock_def unlock_def upd_batch_def go_def)

lemma ex_primed_reached: "run [Call_Prime 1 (Ref 0)] ex_new = Some (Inr ex_primed)"
  by (simp add: ex_new_def ex_primed_def NewDataLoader_def step_def Prime_def deref_def
      go_index_def unsafeSet_def lock_def unlock_def)

subsection \<open>Aggregating the errors of a batch\<close>

lemma unwrap_self: "e \<in> set (unwrap_all e)"
  by (cases e) auto

lemma join_lines_pair: "join_lines (join_lines [a, x] # ms) = join_lines (a # x # ms)"
  by (cases ms) auto

lemma join_errors_Some:
  "\<exists>agg. join_errors (Some a) errs = Some agg
     \<and> Error agg = join_lines (Error a # map Error (non_nil errs))
     \<and> set (unwrap_all a) \<subseteq> set (unwrap_all agg)
     \<and> (\<forall>y. Some y \<in> set errs \<longrightarrow> y \<in> set (unwrap_all agg))"
proof (induction errs arbitrary: a)
  case Nil
  show ?case by simp
next
  case (Cons e errs)
  show ?case
  proof (cases e)
    case None
    with Cons[of a] show ?thesis by auto
  next
    case (Some x)
    have j: "errors_Join [Some a, Some x] = Some (JoinErr [a, x])"
      by (simp add: errors_Join_def)
    from Cons[of "JoinErr [a, x]"] obtain agg where
      1: "join_errors (Some (JoinErr [a, x])) errs = Some agg" and
      2: "Error agg = join_lines (Error (JoinErr [a, x]) # map Error (non_nil errs))" and
      3: "set (unwrap_all (JoinErr [a, x])) \<subseteq> set (unwrap_all agg)" and
      4: "\<forall>y. Some y \<in> set errs \<longrightarrow> y \<in> set (unwrap_all agg)" by blast
    have 5: "set (unwrap_all a) \<subseteq> set (unwrap_all agg)" "x \<in> set (unwrap_all agg)"
      using 3 unwrap_self[of x] by auto
    have 6: "Error agg = join_lines (Error a # map Error (non_nil (e # errs)))"
      using 2 Some by (simp add: join_lines_pair del: join_lines.simps)
    show ?thesis using Some j 1 4 5 6 by auto
  qed
qed

lemma join_errors_None:
  "Some x \<in> set errs \<Longrightarrow> \<exists>agg. join_errors None errs = Some agg
     \<and> Error agg = join_lines (map Error (non_nil errs))
     \<and> (\<forall>y. Some y \<in> set errs \<longrightarrow> y \<in> set (unwrap_all agg))"
proof (induction errs)
  case Nil
  then show ?case by simp
next
  case (Cons e errs)
  show ?case
  proof (cases e)
    case None
    with Cons show ?thesis by auto
  next
    case (Some z)
    have j: "errors_Join [None, Some z] = Some (JoinErr [z])"
      by (simp add: errors_Join_def)
    from join_errors_Some[of "JoinErr [z]" errs] obtain agg where
      1: "join_errors (Some (JoinErr [z])) errs = Some agg" and
      2: "Error agg = join_lines (Error (JoinErr [z]) # map Error (non_nil errs))" and
      3: "set (unwrap_all (JoinErr [z])) \<subseteq> set (unwrap_all agg)" and
      4: "\<forall>y. Some y \<in> set errs \<longrightarrow> y \<in> set (unwrap_all agg)" by blast
    have 5: "z \<in> set (unwrap_all agg)" using 3 unwrap_self[of z] by auto
    have 6: "Error agg = join_lines (map Error (non_nil (e # errs)))"
      using 2 Some by simp
    show ?thesis using Some j 1 4 5 6 by auto
  qed
qed

text \<open>
  C1. When the errors of a completed batch hold a non-nil error at any position, calling
  any thunk of that batch (whatever its position \<open>pos\<close> and key) returns the value at
  its position together with a non-nil aggregate error, and returns the loader as it
  was: nothing is written into the cache, also for a key whose own position holds a
  valid value. The aggregate combines all non-nil errors of the batch: its message is
  their messages in order, one per line, and \<open>errors.Is\<close> finds each of them in it.
\<close>

theorem batch_error_reaches_every_thunk:
  assumes "done_ch (batches l ! b)" and "Some x \<in> set (error (batches l ! b))"
  shows "\<exists>agg. call_thunk (Pending b pos key) l =
            Some (Inr ((if pos < length (data (batches l ! b))
                        then data (batches l ! b) ! pos else NilPtr, Some agg), l))
           \<and> Error agg = join_lines (map Error (non_nil (error (batches l ! b))))
           \<and> (\<forall>y. Some y \<in> set (error (batches l ! b)) \<longrightarrow> y \<in> set (unwrap_all agg))"
proof -
  from join_errors_None[OF assms(2)] obtain agg where
    1: "join_errors None (error (batches l ! b)) = Some agg" and
    2: "Error agg = join_lines (map Error (non_nil (error (batches l ! b))))" and
    3: "\<forall>y. Some y \<in> set (error (batches l ! b)) \<longrightarrow> y \<in> set (unwrap_all agg)" by blast
  have "call_thunk (Pending b pos key) l =
            Some (Inr ((if pos < length (data (batches l ! b))
                        then data (batches l ! b) ! pos else NilPtr, Some agg), l))"
    using assms(1) 1 by (simp add: call_thunk_def go_index_def)
  with 2 3 show ?thesis by blast
qed

theorem batch_error_reaches_every_thunk_witness:
  "done_ch (batches ex_failed ! 0) \<and> Some (Err ''boom'') \<in> set (error (batches ex_failed ! 0))
   \<and> call_thunk (Pending 0 0 1) ex_failed
       = Some (Inr ((Ref 0, Some (JoinErr [Err ''boom''])), ex_failed))
   \<and> cache ex_failed 1 = None"
proof -
  have h1: "done_ch (batches ex_failed ! 0)" by (simp add: ex_failed_def)
  have h2: "Some (Err ''boom'') \<in> set (error (batches ex_failed ! 0))"
    by (simp add: ex_failed_def)
  from batch_error_reaches_every_thunk[OF h1 h2, of 0 1] obtain agg where
    c: "call_thunk (Pending 0 0 1) ex_failed =
          Some (Inr ((if 0 < length (data (batches ex_failed ! 0))
                      then data (batches ex_failed ! 0) ! 0 else NilPtr, Some agg), ex_failed))"
    by blast
  have j: "join_errors None (error (batches ex_failed ! 0)) = Some (JoinErr [Err ''boom''])"
    by (simp add: ex_failed_def errors_Join_def)
  have "agg = JoinErr [Err ''boom'']"
    using c h1 j by (simp add: call_thunk_def go_index_def split: if_splits)
  with c h1 h2 show ?thesis by (simp add: ex_failed_def)
qed






text \<open>
  C9. Calling a thunk never panics. When the batch is completed and the values
  \<open>fetch\<close> returned are too few for the thunk's position, the thunk returns the nil
  pointer.
\<close>

theorem thunk_index_is_guarded:
  "call_thunk t l \<noteq> Some (Inl p)
   \<and> (done_ch (batches l ! b) \<longrightarrow> length (data (batches l ! b)) \<le> pos \<longrightarrow>
        (\<exists>e l1. call_thunk (Pending b pos key) l = Some (Inr ((NilPtr, e), l1))))"
  by (auto simp: call_thunk_def go_index_def Let_def
      split: thunk.splits option.splits sum.splits if_splits)

theorem thunk_index_is_guarded_witness:
  "done_ch (batches ex_short ! 0) \<and> length (data (batches ex_short ! 0)) \<le> 0
   \<and> keys (batches ex_short ! 0) = [7]
   \<and> call_thunk (Pending 0 0 7) ex_short
       = Some (Inr ((NilPtr, None), ex_short\<lparr>cache := [7 \<mapsto> NilPtr]\<rparr>))"
proof -
  have h1: "done_ch (batches ex_short ! 0)" by (simp add: ex_short_def)
  have h2: "length (data (batches ex_short ! 0)) \<le> 0" by (simp add: ex_short_def)
  from thunk_index_is_guarded[of "Pending 0 0 (7::nat)" ex_short IndexOutOfRange 0 0 7] h1 h2
  obtain e l1 where c: "call_thunk (Pending 0 0 7) ex_short = Some (Inr ((NilPtr, e), l1))"
    by blast
  have "call_thunk (Pending 0 0 7) ex_short
       = Some (Inr ((NilPtr, None), ex_short\<lparr>cache := [7 \<mapsto> NilPtr]\<rparr>))"
    using c by (simp add: call_thunk_def ex_short_def unsafeSet_def lock_def unlock_def)
  with h1 h2 show ?thesis by (simp add: ex_short_def)
qed

text \<open>
  C10. On a key not cached, \<open>Prime\<close> with the nil pointer panics on \<open>*value\<close>: it
  returns no boolean.
\<close>

theorem Prime_nil_panics:
  assumes "cache l key = None"
  shows "Prime key NilPtr l = Inl NilDereference"
  using assms by (simp add: Prime_def lock_def deref_def)

theorem Prime_nil_panics_witness:
  "cache (NewDataLoader fetch_short 5 10 []) 42 = None
   \<and> Prime 42 NilPtr (NewDataLoader fetch_short 5 10 []) = Inl NilDereference"
proof -
  have h: "cache (NewDataLoader fetch_short 5 10 []) (42::nat) = None"
    by (simp add: NewDataLoader_def)
  from Prime_nil_panics[OF h] h show ?thesis by simp
qed

subsection \<open>The methods, case by case\<close>

lemma find_key_None: "find_key key ks = None \<longleftrightarrow> key \<notin> set ks"
  by (induction ks) auto

lemma find_key_Some: "find_key key ks = Some i \<Longrightarrow> i < length ks \<and> ks ! i = key"
  by (induction ks arbitrary: i) (auto split: if_splits)

lemma LoadThunk_cached:
  "cache l key = Some it \<Longrightarrow> LoadThunk key l = (Resolved it, l\<lparr>mu := False\<rparr>)"
  by (simp add: LoadThunk_def lock_def unlock_def)

lemma LoadThunk_new_full:
  assumes "cache l key = None" and "batch l = None" and "full l 0"
  shows "LoadThunk key l =
     (Pending (length (batches l)) 0 key,
      l\<lparr>mu := False,
        batches := batches l @ [\<lparr>keys = [key], data = [], error = [], closing = True, done_ch = False\<rparr>],
        batch := None,
        goroutines := goroutines l @ [StartTimer (length (batches l)), End (length (batches l))]\<rparr>)"
  using assms
  by (simp add: LoadThunk_def keyIndex_def lock_def unlock_def go_def upd_batch_def full_def Let_def)

lemma LoadThunk_new_open:
  assumes "cache l key = None" and "batch l = None" and "\<not> full l 0"
  shows "LoadThunk key l =
     (Pending (length (batches l)) 0 key,
      l\<lparr>mu := False,
        batches := batches l @ [\<lparr>keys = [key], data = [], error = [], closing = False, done_ch = False\<rparr>],
        batch := Some (length (batches l)),
        goroutines := goroutines l @ [StartTimer (length (batches l))]\<rparr>)"
  using assms
  by (auto simp add: LoadThunk_def keyIndex_def lock_def unlock_def go_def upd_batch_def full_def Let_def)

lemma LoadThunk_dup:
  assumes "cache l key = None" and "batch l = Some b" and "find_key key (keys (batches l ! b)) = Some i"
  shows "LoadThunk key l = (Pending b i key, l\<lparr>mu := False\<rparr>)"
  using assms
  by (simp add: LoadThunk_def keyIndex_def lock_def unlock_def)

lemma LoadThunk_append_full:
  assumes "cache l key = None" and "batch l = Some b" and "find_key key (keys (batches l ! b)) = None"
    and "keys (batches l ! b) \<noteq> []" and "b < length (batches l)" and "\<not> closing (batches l ! b)"
    and "full l (length (keys (batches l ! b)))"
  shows "LoadThunk key l =
     (Pending b (length (keys (batches l ! b))) key,
      l\<lparr>mu := False,
        batches := (batches l)[b := (batches l ! b)\<lparr>keys := keys (batches l ! b) @ [key], closing := True\<rparr>],
        batch := None,
        goroutines := goroutines l @ [End b]\<rparr>)"
  using assms
  by (simp add: LoadThunk_def keyIndex_def lock_def unlock_def go_def upd_batch_def full_def Let_def)

lemma LoadThunk_append_open:
  assumes "cache l key = None" and "batch l = Some b" and "find_key key (keys (batches l ! b)) = None"
    and "keys (batches l ! b) \<noteq> []" 
    and "\<not> full l (length (keys (batches l ! b)))"
  shows "LoadThunk key l =
     (Pending b (length (keys (batches l ! b))) key,
      l\<lparr>mu := False,
        batches := (batches l)[b := (batches l ! b)\<lparr>keys := keys (batches l ! b) @ [key]\<rparr>]\<rparr>)"
  using assms
  by (auto simp add: LoadThunk_def keyIndex_def lock_def unlock_def go_def upd_batch_def full_def Let_def)

lemma startTimer_closing:
  "closing (batches l ! b) \<Longrightarrow> startTimer b l = Inr (l\<lparr>mu := False\<rparr>)"
  by (simp add: startTimer_def lock_def unlock_def)

lemma startTimer_done:
  "\<not> closing (batches l ! b) \<Longrightarrow> done_ch (batches l ! b) \<Longrightarrow> startTimer b l = Inl CloseOfClosedChannel"
  by (simp add: startTimer_def lock_def unlock_def end_batch_def Let_def)

lemma startTimer_open:
  "\<not> closing (batches l ! b) \<Longrightarrow> \<not> done_ch (batches l ! b) \<Longrightarrow> b < length (batches l) \<Longrightarrow>
   startTimer b l = Inr (l\<lparr>mu := False, batch := None,
      batches := (batches l)[b := (batches l ! b)\<lparr>data := fst (fst (fetch l (keys (batches l ! b)) (heap l))),
           error := snd (fst (fetch l (keys (batches l ! b)) (heap l))), done_ch := True\<rparr>],
      heap := snd (fetch l (keys (batches l ! b)) (heap l)),
      calls := calls l @ [(keys (batches l ! b), True)]\<rparr>)"
  by (simp add: startTimer_def lock_def unlock_def end_batch_def Let_def upd_batch_def)

lemma end_batch_done:
  "done_ch (batches l ! b) \<Longrightarrow> end_batch b l = Inl CloseOfClosedChannel"
  by (simp add: end_batch_def Let_def)

lemma end_batch_open:
  "\<not> done_ch (batches l ! b) \<Longrightarrow> b < length (batches l) \<Longrightarrow>
   end_batch b l = Inr (l\<lparr>
      batches := (batches l)[b := (batches l ! b)\<lparr>data := fst (fst (fetch l (keys (batches l ! b)) (heap l))),
           error := snd (fst (fetch l (keys (batches l ! b)) (heap l))), done_ch := True\<rparr>],
      heap := snd (fetch l (keys (batches l ! b)) (heap l)),
      calls := calls l @ [(keys (batches l ! b), mu l)]\<rparr>)"
  by (simp add: end_batch_def Let_def upd_batch_def)

lemma sint_dec: "0 < sint (w::64 word) \<Longrightarrow> sint (w - 1) = sint w - 1"
proof -
  assume h: "0 < sint w"
  have ub: "sint w < 2 ^ 63" using sint_lt[of w] by simp
  have "sint (w - 1) = signed_take_bit 63 (sint w - sint (1::64 word))"
    by (simp add: sint_word_ariths)
  also have "\<dots> = signed_take_bit 63 (sint w - 1)" by simp
  also have "\<dots> = sint w - 1"
    using h ub by (intro signed_take_bit_int_eq_self) auto
  finally show ?thesis .
qed

lemma ok_init: "loader_ok (NewDataLoader f w m h)"
  by (simp add: loader_ok_def cur_ok_def keys_ok_def calls_ok_def tasks_ok_def NewDataLoader_def)


lemma ok_mu: "loader_ok l \<Longrightarrow> loader_ok (l\<lparr>mu := False\<rparr>)"
proof -
  assume w: "loader_ok l"
  have "cur_ok (l\<lparr>mu := False\<rparr>)" using w by (simp add: loader_ok_def cur_ok_def full_def)
  moreover have "keys_ok (l\<lparr>mu := False\<rparr>)" using w by (simp add: loader_ok_def keys_ok_def)
  moreover have "calls_ok (l\<lparr>mu := False\<rparr>)" using w by (simp add: loader_ok_def calls_ok_def)
  moreover have "tasks_ok (l\<lparr>mu := False\<rparr>)" using w by (simp add: loader_ok_def tasks_ok_def)
  ultimately show ?thesis by (simp add: loader_ok_def)
qed

lemma ok_new_full:
  assumes w: "loader_ok l" and nb: "batch l = None" and f: "full l 0"
  assumes l1_def: "l1 = l\<lparr>mu := False,
        batches := batches l @ [\<lparr>keys = [key], data = [], error = [], closing = True, done_ch = False\<rparr>],
        batch := None,
        goroutines := goroutines l @ [StartTimer (length (batches l)), End (length (batches l))]\<rparr>"
  shows "loader_ok l1"
proof -
  have c: "cur_ok l" and k: "keys_ok l" and ca: "calls_ok l" and t: "tasks_ok l"
    using w by (simp_all add: loader_ok_def)
  have "cur_ok l1" by (simp add: l1_def cur_ok_def)
  moreover have "keys_ok l1" using k f
    by (auto simp: l1_def keys_ok_def full_def sint_dec)
  moreover have "calls_ok l1" using ca by (simp add: l1_def calls_ok_def)
  moreover have "tasks_ok l1" using t nb
    by (auto simp: l1_def tasks_ok_def nth_append less_Suc_eq)
  ultimately show ?thesis by (simp add: loader_ok_def)
qed

lemma ok_new_open:
  assumes w: "loader_ok l" and nb: "batch l = None" and f: "\<not> full l 0"
  assumes l1_def: "l1 = l\<lparr>mu := False,
        batches := batches l @ [\<lparr>keys = [key], data = [], error = [], closing = False, done_ch = False\<rparr>],
        batch := Some (length (batches l)),
        goroutines := goroutines l @ [StartTimer (length (batches l))]\<rparr>"
  shows "loader_ok l1"
proof -
  have c: "cur_ok l" and k: "keys_ok l" and ca: "calls_ok l" and t: "tasks_ok l"
    using w by (simp_all add: loader_ok_def)
  have "cur_ok l1" using f by (simp add: l1_def cur_ok_def full_def)
  moreover have "keys_ok l1" using k f
    by (auto simp: l1_def keys_ok_def)
  moreover have "calls_ok l1" using ca by (simp add: l1_def calls_ok_def)
  moreover have "tasks_ok l1" using t nb
    by (auto simp: l1_def tasks_ok_def nth_append less_Suc_eq)
  ultimately show ?thesis by (simp add: loader_ok_def)
qed

lemma room_bound:
  "0 < sint (maxBatch l) \<Longrightarrow> \<not> full l n \<Longrightarrow> int n + 1 < sint (maxBatch l)"
  by (auto simp: full_def sint_dec)

lemma tasks_okD:
  assumes "tasks_ok l" and "b < length (batches l)"
  shows "End b \<in> set (goroutines l) \<longleftrightarrow> closing (batches l ! b) \<and> \<not> done_ch (batches l ! b)"
    and "\<not> closing (batches l ! b) \<Longrightarrow> \<not> done_ch (batches l ! b) \<Longrightarrow> StartTimer b \<in> set (goroutines l)"
    and "\<not> closing (batches l ! b) \<Longrightarrow> \<not> done_ch (batches l ! b) \<Longrightarrow> batch l = Some b"
    and "\<not> closing (batches l ! b) \<Longrightarrow> done_ch (batches l ! b) \<Longrightarrow> StartTimer b \<notin> set (goroutines l)"
  using assms unfolding tasks_ok_def by blast+

lemma tasks_okI:
  assumes "distinct (goroutines l)"
    and "\<And>t. t \<in> set (goroutines l) \<Longrightarrow> task_batch t < length (batches l)"
    and "\<And>b. b < length (batches l) \<Longrightarrow>
          End b \<in> set (goroutines l) \<longleftrightarrow> closing (batches l ! b) \<and> \<not> done_ch (batches l ! b)"
    and "\<And>b. b < length (batches l) \<Longrightarrow> \<not> closing (batches l ! b) \<Longrightarrow> \<not> done_ch (batches l ! b)
          \<Longrightarrow> StartTimer b \<in> set (goroutines l) \<and> batch l = Some b"
    and "\<And>b. b < length (batches l) \<Longrightarrow> \<not> closing (batches l ! b) \<Longrightarrow> done_ch (batches l ! b)
          \<Longrightarrow> StartTimer b \<notin> set (goroutines l)"
  shows "tasks_ok l"
  using assms unfolding tasks_ok_def by blast

lemma tasks_ok_bound: "tasks_ok l \<Longrightarrow> t \<in> set (goroutines l) \<Longrightarrow> task_batch t < length (batches l)"
  unfolding tasks_ok_def by blast

lemma tasks_ok_distinct: "tasks_ok l \<Longrightarrow> distinct (goroutines l)"
  unfolding tasks_ok_def by blast

lemma ok_append_full:
  assumes w: "loader_ok l" and cb: "batch l = Some b" and nk: "key \<notin> set (keys (batches l ! b))"
    and l1_def: "l1 = l\<lparr>mu := False,
        batches := (batches l)[b := (batches l ! b)\<lparr>keys := keys (batches l ! b) @ [key], closing := True\<rparr>],
        batch := None,
        goroutines := goroutines l @ [End b]\<rparr>"
  shows "loader_ok l1"
proof -
  have c: "cur_ok l" and k: "keys_ok l" and ca: "calls_ok l" and t: "tasks_ok l"
    using w by (simp_all add: loader_ok_def)
  have b: "b < length (batches l)" "\<not> closing (batches l ! b)" "\<not> done_ch (batches l ! b)"
    "\<not> full l (length (keys (batches l ! b)) - 1)"
    using c cb by (auto simp: cur_ok_def)
  have kb: "distinct (keys (batches l ! b))" "keys (batches l ! b) \<noteq> []"
    using k b(1) by (auto simp: keys_ok_def)
  have len: "0 < sint (maxBatch l) \<Longrightarrow> int (length (keys (batches l ! b))) < sint (maxBatch l)"
    using room_bound[OF _ b(4)] kb(2) by (cases "keys (batches l ! b)") auto
  have "cur_ok l1" by (simp add: l1_def cur_ok_def)
  moreover have "keys_ok l1"
    unfolding keys_ok_def
  proof
    fix bt assume "bt \<in> set (batches l1)"
    then have "bt \<in> set (batches l) \<or> bt = (batches l ! b)\<lparr>keys := keys (batches l ! b) @ [key], closing := True\<rparr>"
      using set_update_subset_insert[of "batches l" b] by (auto simp: l1_def)
    then show "distinct (keys bt) \<and> keys bt \<noteq> []
        \<and> (0 < sint (maxBatch l1) \<longrightarrow> int (length (keys bt)) \<le> sint (maxBatch l1))"
      using k kb nk len by (auto simp: keys_ok_def l1_def)
  qed
  moreover have "calls_ok l1" using ca by (simp add: l1_def calls_ok_def)
  moreover have "tasks_ok l1"
  proof (rule tasks_okI)
    have "End b \<notin> set (goroutines l)" using tasks_okD(1)[OF t b(1)] b(2) by simp
    then show "distinct (goroutines l1)" using tasks_ok_distinct[OF t] by (simp add: l1_def)
  next
    fix t' assume "t' \<in> set (goroutines l1)"
    then show "task_batch t' < length (batches l1)"
      using tasks_ok_bound[OF t] b(1) by (auto simp: l1_def)
  next
    fix b' assume b': "b' < length (batches l1)"
    then have b'l: "b' < length (batches l)" by (simp add: l1_def)
    show "End b' \<in> set (goroutines l1) \<longleftrightarrow> closing (batches l1 ! b') \<and> \<not> done_ch (batches l1 ! b')"
      using tasks_okD(1)[OF t b'l] b by (cases "b' = b") (auto simp: l1_def)
  next
    fix b' assume b': "b' < length (batches l1)"
      and o: "\<not> closing (batches l1 ! b')" "\<not> done_ch (batches l1 ! b')"
    then have b'l: "b' < length (batches l)" by (simp add: l1_def)
    have ne: "b' \<noteq> b" using o b(1) by (auto simp: l1_def)
    then have "\<not> closing (batches l ! b')" "\<not> done_ch (batches l ! b')" using o by (simp_all add: l1_def)
    from tasks_okD(3)[OF t b'l this] cb ne have False by simp
    then show "StartTimer b' \<in> set (goroutines l1) \<and> batch l1 = Some b'" ..
  next
    fix b' assume b': "b' < length (batches l1)"
      and o: "\<not> closing (batches l1 ! b')" "done_ch (batches l1 ! b')"
    then have b'l: "b' < length (batches l)" by (simp add: l1_def)
    have ne: "b' \<noteq> b" using o b(1) by (auto simp: l1_def)
    then have "\<not> closing (batches l ! b')" "done_ch (batches l ! b')" using o by (simp_all add: l1_def)
    from tasks_okD(4)[OF t b'l this] show "StartTimer b' \<notin> set (goroutines l1)" by (simp add: l1_def)
  qed
  ultimately show ?thesis by (simp add: loader_ok_def)
qed

lemma ok_append_open:
  assumes w: "loader_ok l" and cb: "batch l = Some b" and nk: "key \<notin> set (keys (batches l ! b))"
    and f: "\<not> full l (length (keys (batches l ! b)))"
    and l1_def: "l1 = l\<lparr>mu := False,
        batches := (batches l)[b := (batches l ! b)\<lparr>keys := keys (batches l ! b) @ [key]\<rparr>]\<rparr>"
  shows "loader_ok l1"
proof -
  have c: "cur_ok l" and k: "keys_ok l" and ca: "calls_ok l" and t: "tasks_ok l"
    using w by (simp_all add: loader_ok_def)
  have b: "b < length (batches l)" "\<not> closing (batches l ! b)" "\<not> done_ch (batches l ! b)"
    using c cb by (auto simp: cur_ok_def)
  have kb: "distinct (keys (batches l ! b))" "keys (batches l ! b) \<noteq> []"
    using k b(1) by (auto simp: keys_ok_def)
  have len: "0 < sint (maxBatch l) \<Longrightarrow> int (length (keys (batches l ! b))) + 1 < sint (maxBatch l)"
    using room_bound[OF _ f] by simp
  have "cur_ok l1" using c cb f by (simp add: l1_def cur_ok_def full_def)
  moreover have "keys_ok l1"
    unfolding keys_ok_def
  proof
    fix bt assume "bt \<in> set (batches l1)"
    then have "bt \<in> set (batches l) \<or> bt = (batches l ! b)\<lparr>keys := keys (batches l ! b) @ [key]\<rparr>"
      using set_update_subset_insert[of "batches l" b] by (auto simp: l1_def)
    then show "distinct (keys bt) \<and> keys bt \<noteq> []
        \<and> (0 < sint (maxBatch l1) \<longrightarrow> int (length (keys bt)) \<le> sint (maxBatch l1))"
      using k kb nk len by (auto simp: keys_ok_def l1_def)
  qed
  moreover have "calls_ok l1" using ca by (simp add: l1_def calls_ok_def)
  moreover have "tasks_ok l1"
  proof (rule tasks_okI)
    show "distinct (goroutines l1)" using tasks_ok_distinct[OF t] by (simp add: l1_def)
  next
    fix t' assume "t' \<in> set (goroutines l1)"
    then show "task_batch t' < length (batches l1)"
      using tasks_ok_bound[OF t] by (auto simp: l1_def)
  next
    fix b' assume b': "b' < length (batches l1)"
    then have b'l: "b' < length (batches l)" by (simp add: l1_def)
    show "End b' \<in> set (goroutines l1) \<longleftrightarrow> closing (batches l1 ! b') \<and> \<not> done_ch (batches l1 ! b')"
      using tasks_okD(1)[OF t b'l] b by (cases "b' = b") (auto simp: l1_def)
  next
    fix b' assume b': "b' < length (batches l1)"
      and o: "\<not> closing (batches l1 ! b')" "\<not> done_ch (batches l1 ! b')"
    then have b'l: "b' < length (batches l)" by (simp add: l1_def)
    have "\<not> closing (batches l ! b')" "\<not> done_ch (batches l ! b')"
      using o b by (cases "b' = b"; simp add: l1_def)+
    from tasks_okD(2)[OF t b'l this] tasks_okD(3)[OF t b'l this]
    show "StartTimer b' \<in> set (goroutines l1) \<and> batch l1 = Some b'" by (simp add: l1_def)
  next
    fix b' assume b': "b' < length (batches l1)"
      and o: "\<not> closing (batches l1 ! b')" "done_ch (batches l1 ! b')"
    then have b'l: "b' < length (batches l)" by (simp add: l1_def)
    have "\<not> closing (batches l ! b')" "done_ch (batches l ! b')"
      using o b by (cases "b' = b"; simp add: l1_def)+
    from tasks_okD(4)[OF t b'l this] show "StartTimer b' \<notin> set (goroutines l1)" by (simp add: l1_def)
  qed
  ultimately show ?thesis by (simp add: loader_ok_def)
qed

lemma ok_frame:
  assumes w: "loader_ok l" and "mu l1 = False" and "batch l1 = batch l" and "batches l1 = batches l"
    and "goroutines l1 = goroutines l" and "calls l1 = calls l" and "maxBatch l1 = maxBatch l"
  shows "loader_ok l1"
proof -
  have "cur_ok l1" using assms by (simp add: loader_ok_def cur_ok_def full_def)
  moreover have "keys_ok l1" using assms by (simp add: loader_ok_def keys_ok_def)
  moreover have "calls_ok l1" using assms by (simp add: loader_ok_def calls_ok_def)
  moreover have "tasks_ok l1" using assms by (simp add: loader_ok_def tasks_ok_def)
  ultimately show ?thesis by (simp add: loader_ok_def)
qed

lemma ok_timer_closing:
  assumes w: "loader_ok l" and g: "StartTimer b \<in> set (goroutines l)" and cl: "closing (batches l ! b)"
    and l1_def: "l1 = l\<lparr>goroutines := remove1 (StartTimer b) (goroutines l), mu := False\<rparr>"
  shows "loader_ok l1"
proof -
  have c: "cur_ok l" and k: "keys_ok l" and ca: "calls_ok l" and t: "tasks_ok l"
    using w by (simp_all add: loader_ok_def)
  have d: "distinct (goroutines l)" by (rule tasks_ok_distinct[OF t])
  have "cur_ok l1" using c by (simp add: l1_def cur_ok_def full_def)
  moreover have "keys_ok l1" using k by (simp add: l1_def keys_ok_def)
  moreover have "calls_ok l1" using ca by (simp add: l1_def calls_ok_def)
  moreover have "tasks_ok l1"
  proof (rule tasks_okI)
    show "distinct (goroutines l1)" using d by (simp add: l1_def)
  next
    fix t' assume "t' \<in> set (goroutines l1)"
    then show "task_batch t' < length (batches l1)"
      using tasks_ok_bound[OF t] d by (auto simp: l1_def)
  next
    fix b' assume b': "b' < length (batches l1)"
    then have b'l: "b' < length (batches l)" by (simp add: l1_def)
    show "End b' \<in> set (goroutines l1) \<longleftrightarrow> closing (batches l1 ! b') \<and> \<not> done_ch (batches l1 ! b')"
      using tasks_okD(1)[OF t b'l] d by (auto simp: l1_def)
  next
    fix b' assume b': "b' < length (batches l1)"
      and o: "\<not> closing (batches l1 ! b')" "\<not> done_ch (batches l1 ! b')"
    then have b'l: "b' < length (batches l)" by (simp add: l1_def)
    have o': "\<not> closing (batches l ! b')" "\<not> done_ch (batches l ! b')"
      using o by (simp_all add: l1_def)
    then have "b' \<noteq> b" using cl by auto
    with tasks_okD(2)[OF t b'l o'] tasks_okD(3)[OF t b'l o'] d
    show "StartTimer b' \<in> set (goroutines l1) \<and> batch l1 = Some b'" by (simp add: l1_def)
  next
    fix b' assume b': "b' < length (batches l1)"
      and o: "\<not> closing (batches l1 ! b')" "done_ch (batches l1 ! b')"
    then have b'l: "b' < length (batches l)" by (simp add: l1_def)
    have "\<not> closing (batches l ! b')" "done_ch (batches l ! b')"
      using o by (simp_all add: l1_def)
    from tasks_okD(4)[OF t b'l this] d show "StartTimer b' \<notin> set (goroutines l1)"
      by (auto simp: l1_def)
  qed
  ultimately show ?thesis by (simp add: loader_ok_def)
qed

lemma ok_complete:
  assumes w: "loader_ok l" and g: "t \<in> set (goroutines l)" and tb: "task_batch t = b"
    and nd: "\<not> done_ch (batches l ! b)"
    and tc: "t = StartTimer b \<Longrightarrow> \<not> closing (batches l ! b)"
    and l1_def: "l1 = l\<lparr>goroutines := remove1 t (goroutines l), mu := False, batch := cb,
      batches := (batches l)[b := (batches l ! b)\<lparr>data := d, error := e, done_ch := True\<rparr>],
      heap := h, calls := calls l @ [(keys (batches l ! b), held)]\<rparr>"
    and cb: "cb = (if t = StartTimer b then None else batch l)"
  shows "loader_ok l1"
proof -
  have c: "cur_ok l" and k: "keys_ok l" and ca: "calls_ok l" and ts: "tasks_ok l"
    using w by (simp_all add: loader_ok_def)
  have dg: "distinct (goroutines l)" by (rule tasks_ok_distinct[OF ts])
  have b: "b < length (batches l)" using tasks_ok_bound[OF ts g] tb by simp
  have t_cases: "t = StartTimer b \<or> t = End b" using tb by (cases t) auto
  have cl: "t = End b \<Longrightarrow> closing (batches l ! b)" using tasks_okD(1)[OF ts b] g by simp
  have cur: "t = StartTimer b \<Longrightarrow> batch l = Some b" using tasks_okD(3)[OF ts b] tc nd by simp
  have ncur: "t = End b \<Longrightarrow> batch l \<noteq> Some b" using cl c by (auto simp: cur_ok_def)
  have "cur_ok l1" using c ncur t_cases
    by (auto simp: l1_def cb cur_ok_def full_def nth_list_update)
  moreover have "keys_ok l1"
    unfolding keys_ok_def
  proof
    fix bt assume "bt \<in> set (batches l1)"
    then have "bt \<in> set (batches l) \<or> bt = (batches l ! b)\<lparr>data := d, error := e, done_ch := True\<rparr>"
      using set_update_subset_insert[of "batches l" b] by (auto simp: l1_def)
    moreover have "batches l ! b \<in> set (batches l)" using b by simp
    ultimately show "distinct (keys bt) \<and> keys bt \<noteq> []
        \<and> (0 < sint (maxBatch l1) \<longrightarrow> int (length (keys bt)) \<le> sint (maxBatch l1))"
      using k by (auto simp: keys_ok_def l1_def)
  qed
  moreover have "calls_ok l1"
  proof -
    have "batches l ! b \<in> set (batches l)" using b by simp
    then show ?thesis using ca k by (auto simp: l1_def calls_ok_def keys_ok_def)
  qed
  moreover have "tasks_ok l1"
  proof (rule tasks_okI)
    show "distinct (goroutines l1)" using dg by (simp add: l1_def)
  next
    fix t' assume "t' \<in> set (goroutines l1)"
    then show "task_batch t' < length (batches l1)"
      using tasks_ok_bound[OF ts] dg by (auto simp: l1_def)
  next
    fix b' assume b': "b' < length (batches l1)"
    then have b'l: "b' < length (batches l)" by (simp add: l1_def)
    show "End b' \<in> set (goroutines l1) \<longleftrightarrow> closing (batches l1 ! b') \<and> \<not> done_ch (batches l1 ! b')"
    proof (cases "b' = b")
      case True
      then show ?thesis using tasks_okD(1)[OF ts b] dg b t_cases tc
        by (auto simp: l1_def)
    next
      case False
      then show ?thesis using tasks_okD(1)[OF ts b'l] dg t_cases
        by (auto simp: l1_def)
    qed
  next
    fix b' assume b': "b' < length (batches l1)"
      and o: "\<not> closing (batches l1 ! b')" "\<not> done_ch (batches l1 ! b')"
    then have b'l: "b' < length (batches l)" by (simp add: l1_def)
    have ne: "b' \<noteq> b" using o b by (auto simp: l1_def)
    then have o': "\<not> closing (batches l ! b')" "\<not> done_ch (batches l ! b')"
      using o by (simp_all add: l1_def)
    have "t \<noteq> StartTimer b" using cur tasks_okD(3)[OF ts b'l o'] ne by auto
    with tasks_okD(2)[OF ts b'l o'] tasks_okD(3)[OF ts b'l o'] dg t_cases ne
    show "StartTimer b' \<in> set (goroutines l1) \<and> batch l1 = Some b'"
      by (auto simp: l1_def cb)
  next
    fix b' assume b': "b' < length (batches l1)"
      and o: "\<not> closing (batches l1 ! b')" "done_ch (batches l1 ! b')"
    then have b'l: "b' < length (batches l)" by (simp add: l1_def)
    show "StartTimer b' \<notin> set (goroutines l1)"
    proof (cases "b' = b")
      case True
      then have "\<not> closing (batches l ! b)" using o b by (simp add: l1_def)
      then have "t = StartTimer b" using cl t_cases by auto
      then show ?thesis using True dg by (simp add: l1_def)
    next
      case False
      then have "\<not> closing (batches l ! b')" "done_ch (batches l ! b')"
        using o by (simp_all add: l1_def)
      from tasks_okD(4)[OF ts b'l this] show ?thesis by (auto simp: l1_def dest: notin_set_remove1)
    qed
  qed
  ultimately show ?thesis by (simp add: loader_ok_def)
qed

lemma ok_not_mu: "loader_ok l \<Longrightarrow> \<not> mu l"
  by (simp add: loader_ok_def cur_ok_def)

lemma ok_LoadThunk:
  assumes w: "loader_ok l" and lt: "LoadThunk key l = (t, l1)"
  shows "loader_ok l1"
proof (cases "cache l key")
  case (Some it)
  with lt have "l1 = l\<lparr>mu := False\<rparr>" by (simp add: LoadThunk_cached)
  with w show ?thesis using ok_mu by blast
next
  case None
  show ?thesis
  proof (cases "batch l")
    case nb: None
    show ?thesis
    proof (cases "full l 0")
      case True
      from LoadThunk_new_full[OF None nb True] lt show ?thesis
        using ok_new_full[OF w nb True] by simp
    next
      case False
      from LoadThunk_new_open[OF None nb False] lt show ?thesis
        using ok_new_open[OF w nb False] by simp
    qed
  next
    case (Some b)
    have c: "cur_ok l" and k: "keys_ok l" using w by (simp_all add: loader_ok_def)
    have b: "b < length (batches l)" "\<not> closing (batches l ! b)"
      using c Some by (auto simp: cur_ok_def)
    have kb: "keys (batches l ! b) \<noteq> []" using k b(1) by (auto simp: keys_ok_def)
    show ?thesis
    proof (cases "find_key key (keys (batches l ! b))")
      case (Some i)
      from LoadThunk_dup[OF None \<open>batch l = Some b\<close> Some] lt
      have "l1 = l\<lparr>mu := False\<rparr>" by simp
      with w show ?thesis using ok_mu by blast
    next
      case nf: None
      then have nk: "key \<notin> set (keys (batches l ! b))" by (simp add: find_key_None)
      show ?thesis
      proof (cases "full l (length (keys (batches l ! b)))")
        case True
        from LoadThunk_append_full[OF None \<open>batch l = Some b\<close> nf kb b True] lt show ?thesis
          using ok_append_full[OF w \<open>batch l = Some b\<close> nk] by simp
      next
        case False
        from LoadThunk_append_open[OF None \<open>batch l = Some b\<close> nf kb False] lt show ?thesis
          using ok_append_open[OF w \<open>batch l = Some b\<close> nk False] by simp
      qed
    qed
  qed
qed

lemma LoadThunk_const:
  "LoadThunk key l = (t, l1) \<Longrightarrow> maxBatch l1 = maxBatch l \<and> fetch l1 = fetch l \<and> wait l1 = wait l"
  by (auto simp: LoadThunk_def keyIndex_def lock_def unlock_def go_def upd_batch_def Let_def
      split: option.splits if_splits prod.splits)

lemma call_thunk_frame:
  "call_thunk t l = Some (Inr (r, l1)) \<Longrightarrow>
     (l1 = l \<or> mu l1 = False) \<and> batch l1 = batch l \<and> batches l1 = batches l \<and> goroutines l1 = goroutines l
     \<and> calls l1 = calls l \<and> maxBatch l1 = maxBatch l \<and> fetch l1 = fetch l \<and> heap l1 = heap l
     \<and> issued l1 = issued l"
  by (auto simp: call_thunk_def Let_def lock_def unlock_def unsafeSet_def
      split: thunk.splits if_splits sum.splits option.splits)

lemma Prime_frame:
  "Prime key val l = Inr (ok, l1) \<Longrightarrow>
     mu l1 = False \<and> batch l1 = batch l \<and> batches l1 = batches l \<and> goroutines l1 = goroutines l
     \<and> calls l1 = calls l \<and> maxBatch l1 = maxBatch l \<and> fetch l1 = fetch l \<and> issued l1 = issued l"
  by (auto simp: Prime_def Let_def lock_def unlock_def unsafeSet_def
      split: if_splits sum.splits option.splits)

lemma Clear_frame:
  "Clear key l = l1 \<Longrightarrow>
     mu l1 = False \<and> batch l1 = batch l \<and> batches l1 = batches l \<and> goroutines l1 = goroutines l
     \<and> calls l1 = calls l \<and> maxBatch l1 = maxBatch l \<and> fetch l1 = fetch l \<and> issued l1 = issued l
     \<and> heap l1 = heap l"
  by (auto simp: Clear_def Let_def lock_def unlock_def)

lemma ok_step:
  assumes w: "loader_ok l" and st: "step e l = Some (Inr l1)"
  shows "loader_ok l1"
proof (cases e)
  case (Call_LoadThunk key)
  obtain t l' where lt: "LoadThunk key l = (t, l')" by (cases "LoadThunk key l")
  with st Call_LoadThunk have l1: "l1 = l'\<lparr>issued := issued l' @ [t]\<rparr>" by (simp add: step_def)
  have w': "loader_ok l'" by (rule ok_LoadThunk[OF w lt])
  show ?thesis by (rule ok_frame[OF w']) (simp_all add: l1 ok_not_mu[OF w'])
next
  case (Call_thunk n)
  with st obtain r where ct: "call_thunk (issued l ! n) l = Some (Inr (r, l1))"
    by (auto simp: step_def split: if_splits option.splits sum.splits)
  from call_thunk_frame[OF ct] ok_not_mu[OF w] show ?thesis
    by (intro ok_frame[OF w]) auto
next
  case (Call_Prime key val)
  with st obtain ok where p: "Prime key val l = Inr (ok, l1)"
    by (auto simp: step_def split: sum.splits)
  from Prime_frame[OF p] show ?thesis by (intro ok_frame[OF w]) auto
next
  case (Call_Clear key)
  with st have p: "Clear key l = l1" by (simp add: step_def)
  from Clear_frame[OF p] show ?thesis by (intro ok_frame[OF w]) auto
next
  case (Run t)
  with st have g: "t \<in> set (goroutines l)" by (auto simp: step_def split: if_splits)
  define l0 where "l0 = l\<lparr>goroutines := remove1 t (goroutines l)\<rparr>"
  have ts: "tasks_ok l" using w by (simp add: loader_ok_def)
  have bnd: "task_batch t < length (batches l)" by (rule tasks_ok_bound[OF ts g])
  show ?thesis
  proof (cases t)
    case (StartTimer b)
    with st Run g have s: "startTimer b l0 = Inr l1" by (simp add: step_def l0_def)
    have b: "b < length (batches l)" using bnd StartTimer by simp
    show ?thesis
    proof (cases "closing (batches l ! b)")
      case True
      then have "startTimer b l0 = Inr (l0\<lparr>mu := False\<rparr>)"
        by (intro startTimer_closing) (simp add: l0_def)
      with s have "l1 = l\<lparr>goroutines := remove1 (StartTimer b) (goroutines l), mu := False\<rparr>"
        by (simp add: l0_def StartTimer)
      from ok_timer_closing[OF w _ True this] g StartTimer show ?thesis by simp
    next
      case False
      have nd: "\<not> done_ch (batches l ! b)"
        using tasks_okD(4)[OF ts b False] g StartTimer by auto
      have "startTimer b l0 = Inr (l0\<lparr>mu := False, batch := None,
        batches := (batches l0)[b := (batches l0 ! b)\<lparr>data := fst (fst (fetch l0 (keys (batches l0 ! b)) (heap l0))),
           error := snd (fst (fetch l0 (keys (batches l0 ! b)) (heap l0))), done_ch := True\<rparr>],
        heap := snd (fetch l0 (keys (batches l0 ! b)) (heap l0)),
        calls := calls l0 @ [(keys (batches l0 ! b), True)]\<rparr>)"
        using False nd b by (intro startTimer_open) (simp_all add: l0_def)
      with s have l1: "l1 = l\<lparr>goroutines := remove1 t (goroutines l), mu := False, batch := None,
        batches := (batches l)[b := (batches l ! b)\<lparr>data := fst (fst (fetch l (keys (batches l ! b)) (heap l))),
           error := snd (fst (fetch l (keys (batches l ! b)) (heap l))), done_ch := True\<rparr>],
        heap := snd (fetch l (keys (batches l ! b)) (heap l)),
        calls := calls l @ [(keys (batches l ! b), True)]\<rparr>"
        by (simp add: l0_def)
      show ?thesis
        by (rule ok_complete[OF w g _ nd _ l1]) (simp_all add: StartTimer False)
    qed
  next
    case (End b)
    with st Run g have s: "end_batch b l0 = Inr l1" by (simp add: step_def l0_def)
    have b: "b < length (batches l)" using bnd End by simp
    have nd: "\<not> done_ch (batches l ! b)" using tasks_okD(1)[OF ts b] g End by simp
    have "end_batch b l0 = Inr (l0\<lparr>
        batches := (batches l0)[b := (batches l0 ! b)\<lparr>data := fst (fst (fetch l0 (keys (batches l0 ! b)) (heap l0))),
           error := snd (fst (fetch l0 (keys (batches l0 ! b)) (heap l0))), done_ch := True\<rparr>],
        heap := snd (fetch l0 (keys (batches l0 ! b)) (heap l0)),
        calls := calls l0 @ [(keys (batches l0 ! b), mu l0)]\<rparr>)"
      using nd b by (intro end_batch_open) (simp_all add: l0_def)
    with s have l1: "l1 = l\<lparr>goroutines := remove1 t (goroutines l), mu := False, batch := batch l,
        batches := (batches l)[b := (batches l ! b)\<lparr>data := fst (fst (fetch l (keys (batches l ! b)) (heap l))),
           error := snd (fst (fetch l (keys (batches l ! b)) (heap l))), done_ch := True\<rparr>],
        heap := snd (fetch l (keys (batches l ! b)) (heap l)),
        calls := calls l @ [(keys (batches l ! b), False)]\<rparr>"
      using ok_not_mu[OF w] by (simp add: l0_def)
    show ?thesis
      by (rule ok_complete[OF w g _ nd _ l1]) (simp_all add: End)
  qed
qed

lemma ok_run: "loader_ok l \<Longrightarrow> run es l = Some (Inr l1) \<Longrightarrow> loader_ok l1"
proof (induction es arbitrary: l)
  case Nil
  then show ?case by simp
next
  case (Cons e es)
  from Cons.prems(2) obtain l' where s: "step e l = Some (Inr l')" and r: "run es l' = Some (Inr l1)"
    by (auto split: option.splits sum.splits)
  from Cons.IH[OF ok_step[OF Cons.prems(1) s] r] show ?case .
qed

subsection \<open>What an event does to the batches\<close>

lemma batch_closing_False: "\<not> closing bt \<Longrightarrow> bt\<lparr>keys := ks, closing := False\<rparr> = bt\<lparr>keys := ks\<rparr>"
  by (cases bt) simp

lemma step_const:
  assumes "step e l = Some (Inr l1)"
  shows "maxBatch l1 = maxBatch l \<and> fetch l1 = fetch l"
  using assms
  by (cases e)
    (auto simp: step_def LoadThunk_def keyIndex_def call_thunk_def Prime_def Clear_def
      startTimer_def end_batch_def Let_def lock_def unlock_def unsafeSet_def go_def
      upd_batch_def
      split: option.splits sum.splits if_splits prod.splits thunk.splits task.splits)

lemma step_batches:
  assumes w: "loader_ok l" and st: "step e l = Some (Inr l1)"
  shows "batches l1 = batches l
       \<or> (\<exists>key. e = Call_LoadThunk key \<and> cache l key = None \<and> batch l = None \<and>
             batches l1 = batches l @ [\<lparr>keys = [key], data = [], error = [],
                                         closing = full l 0, done_ch = False\<rparr>])
       \<or> (\<exists>key b. e = Call_LoadThunk key \<and> cache l key = None \<and> batch l = Some b
             \<and> key \<notin> set (keys (batches l ! b)) \<and>
             batches l1 = (batches l)[b := (batches l ! b)
                 \<lparr>keys := keys (batches l ! b) @ [key],
                  closing := full l (length (keys (batches l ! b)))\<rparr>])
       \<or> (\<exists>t. e = Run t \<and> t \<in> set (goroutines l) \<and> \<not> done_ch (batches l ! task_batch t) \<and>
             (t = StartTimer (task_batch t) \<longrightarrow> \<not> closing (batches l ! task_batch t)) \<and>
             batches l1 = (batches l)[task_batch t := (batches l ! task_batch t)
                 \<lparr>data := fst (fst (fetch l (keys (batches l ! task_batch t)) (heap l))),
                  error := snd (fst (fetch l (keys (batches l ! task_batch t)) (heap l))),
                  done_ch := True\<rparr>])"
    (is "?A \<or> ?B \<or> ?C \<or> ?D")
proof (cases e)
  case (Call_LoadThunk key)
  obtain t l' where lt: "LoadThunk key l = (t, l')" by (cases "LoadThunk key l")
  with st Call_LoadThunk have l1: "batches l1 = batches l'" by (auto simp: step_def)
  show ?thesis
  proof (cases "cache l key")
    case (Some it)
    with lt have "l' = l\<lparr>mu := False\<rparr>" by (simp add: LoadThunk_cached)
    with l1 have ?A by simp
    then show ?thesis ..
  next
    case None
    show ?thesis
    proof (cases "batch l")
      case nb: None
      have "batches l1 = batches l @ [\<lparr>keys = [key], data = [], error = [],
                                         closing = full l 0, done_ch = False\<rparr>]"
      proof (cases "full l 0")
        case True
        from LoadThunk_new_full[OF None nb True] lt l1 True show ?thesis by simp
      next
        case False
        from LoadThunk_new_open[OF None nb False] lt l1 False show ?thesis by simp
      qed
      with Call_LoadThunk None nb have ?B by simp
      then show ?thesis by (rule disjI2[OF disjI1])
    next
      case (Some b)
      have c: "cur_ok l" and k: "keys_ok l" using w by (simp_all add: loader_ok_def)
      have b: "b < length (batches l)" "\<not> closing (batches l ! b)"
        using c Some by (auto simp: cur_ok_def)
      have kb: "keys (batches l ! b) \<noteq> []" using k b(1) by (auto simp: keys_ok_def)
      show ?thesis
      proof (cases "find_key key (keys (batches l ! b))")
        case (Some i)
        from LoadThunk_dup[OF None \<open>batch l = Some b\<close> Some] lt
        have "l' = l\<lparr>mu := False\<rparr>" by simp
        with l1 have ?A by simp
        then show ?thesis ..
      next
        case nf: None
        then have nk: "key \<notin> set (keys (batches l ! b))" by (simp add: find_key_None)
        have "batches l1 = (batches l)[b := (batches l ! b)
                 \<lparr>keys := keys (batches l ! b) @ [key],
                  closing := full l (length (keys (batches l ! b)))\<rparr>]"
        proof (cases "full l (length (keys (batches l ! b)))")
          case True
          from LoadThunk_append_full[OF None \<open>batch l = Some b\<close> nf kb b True] lt l1 True
          show ?thesis by simp
        next
          case False
          from LoadThunk_append_open[OF None \<open>batch l = Some b\<close> nf kb False] lt l1 False b(2)
          show ?thesis by (simp add: batch_closing_False)
        qed
        with Call_LoadThunk None \<open>batch l = Some b\<close> nk have ?C by simp
        then show ?thesis by (rule disjI2[OF disjI2[OF disjI1]])
      qed
    qed
  qed
next
  case (Call_thunk n)
  with st obtain r where ct: "call_thunk (issued l ! n) l = Some (Inr (r, l1))"
    by (auto simp: step_def split: if_splits option.splits sum.splits)
  from call_thunk_frame[OF ct] have ?A by simp
  then show ?thesis ..
next
  case (Call_Prime key val)
  with st obtain ok where p: "Prime key val l = Inr (ok, l1)"
    by (auto simp: step_def split: sum.splits)
  from Prime_frame[OF p] have ?A by simp
  then show ?thesis ..
next
  case (Call_Clear key)
  with st have p: "Clear key l = l1" by (simp add: step_def)
  from Clear_frame[OF p] have ?A by simp
  then show ?thesis ..
next
  case (Run t)
  with st have g: "t \<in> set (goroutines l)" by (auto simp: step_def split: if_splits)
  define l0 where "l0 = l\<lparr>goroutines := remove1 t (goroutines l)\<rparr>"
  have ts: "tasks_ok l" using w by (simp add: loader_ok_def)
  have bnd: "task_batch t < length (batches l)" by (rule tasks_ok_bound[OF ts g])
  show ?thesis
  proof (cases t)
    case (StartTimer b)
    with st Run g have s: "startTimer b l0 = Inr l1" by (simp add: step_def l0_def)
    have b: "b < length (batches l)" using bnd StartTimer by simp
    show ?thesis
    proof (cases "closing (batches l ! b)")
      case True
      then have "startTimer b l0 = Inr (l0\<lparr>mu := False\<rparr>)"
        by (intro startTimer_closing) (simp add: l0_def)
      with s have "l1 = l0\<lparr>mu := False\<rparr>" by simp
      then have ?A by (simp add: l0_def)
      then show ?thesis ..
    next
      case False
      have nd: "\<not> done_ch (batches l ! b)"
        using tasks_okD(4)[OF ts b False] g StartTimer by auto
      have "startTimer b l0 = Inr (l0\<lparr>mu := False, batch := None,
        batches := (batches l0)[b := (batches l0 ! b)\<lparr>data := fst (fst (fetch l0 (keys (batches l0 ! b)) (heap l0))),
           error := snd (fst (fetch l0 (keys (batches l0 ! b)) (heap l0))), done_ch := True\<rparr>],
        heap := snd (fetch l0 (keys (batches l0 ! b)) (heap l0)),
        calls := calls l0 @ [(keys (batches l0 ! b), True)]\<rparr>)"
        using False nd b by (intro startTimer_open) (simp_all add: l0_def)
      with s have "l1 = l0\<lparr>mu := False, batch := None,
        batches := (batches l0)[b := (batches l0 ! b)\<lparr>data := fst (fst (fetch l0 (keys (batches l0 ! b)) (heap l0))),
           error := snd (fst (fetch l0 (keys (batches l0 ! b)) (heap l0))), done_ch := True\<rparr>],
        heap := snd (fetch l0 (keys (batches l0 ! b)) (heap l0)),
        calls := calls l0 @ [(keys (batches l0 ! b), True)]\<rparr>" by simp
      then have "batches l1 = (batches l)[task_batch t := (batches l ! task_batch t)\<lparr>data := fst (fst (fetch l (keys (batches l ! b)) (heap l))),
           error := snd (fst (fetch l (keys (batches l ! b)) (heap l))), done_ch := True\<rparr>]"
        by (simp add: l0_def StartTimer)
      with Run g nd False StartTimer have ?D by (intro exI[of _ t]) simp
      then show ?thesis by (rule disjI2[OF disjI2[OF disjI2]])
    qed
  next
    case (End b)
    with st Run g have s: "end_batch b l0 = Inr l1" by (simp add: step_def l0_def)
    have b: "b < length (batches l)" using bnd End by simp
    have nd: "\<not> done_ch (batches l ! b)" using tasks_okD(1)[OF ts b] g End by simp
    have "end_batch b l0 = Inr (l0\<lparr>
        batches := (batches l0)[b := (batches l0 ! b)\<lparr>data := fst (fst (fetch l0 (keys (batches l0 ! b)) (heap l0))),
           error := snd (fst (fetch l0 (keys (batches l0 ! b)) (heap l0))), done_ch := True\<rparr>],
        heap := snd (fetch l0 (keys (batches l0 ! b)) (heap l0)),
        calls := calls l0 @ [(keys (batches l0 ! b), mu l0)]\<rparr>)"
      using nd b by (intro end_batch_open) (simp_all add: l0_def)
    with s have "l1 = l0\<lparr>
        batches := (batches l0)[b := (batches l0 ! b)\<lparr>data := fst (fst (fetch l0 (keys (batches l0 ! b)) (heap l0))),
           error := snd (fst (fetch l0 (keys (batches l0 ! b)) (heap l0))), done_ch := True\<rparr>],
        heap := snd (fetch l0 (keys (batches l0 ! b)) (heap l0)),
        calls := calls l0 @ [(keys (batches l0 ! b), mu l0)]\<rparr>" by simp
    then have "batches l1 = (batches l)[task_batch t := (batches l ! task_batch t)\<lparr>data := fst (fst (fetch l (keys (batches l ! b)) (heap l))),
           error := snd (fst (fetch l (keys (batches l ! b)) (heap l))), done_ch := True\<rparr>]"
      by (simp add: l0_def End)
    with Run g nd End have ?D by (intro exI[of _ t]) simp
    then show ?thesis by (rule disjI2[OF disjI2[OF disjI2]])
  qed
qed

subsection \<open>How batches evolve\<close>

lemma nth_upd: "j < length xs \<Longrightarrow> (xs[i := x]) ! j = (if i = j then x else xs ! j)"
  by (cases "i = j") auto

lemma in_set_upd: "bt \<in> set (xs[i := x]) \<Longrightarrow> bt = x \<or> bt \<in> set xs"
  using set_update_subset_insert[of xs i x] by auto


lemma step_keys_prefix:
  assumes w: "loader_ok l" and st: "step e l = Some (Inr l1)" and b: "b < length (batches l)"
  shows "prefix (keys (batches l ! b)) (keys (batches l1 ! b))"
  using step_batches[OF w st] b
  by (auto simp: nth_append nth_upd)

lemma step_detached_keys:
  assumes w: "loader_ok l" and st: "step e l = Some (Inr l1)" and b: "b < length (batches l)"
    and d: "closing (batches l ! b) \<or> done_ch (batches l ! b)"
  shows "keys (batches l1 ! b) = keys (batches l ! b)"
proof -
  have c: "cur_ok l" using w by (simp add: loader_ok_def)
  have "batch l \<noteq> Some b" using c d by (auto simp: cur_ok_def)
  then show ?thesis using step_batches[OF w st] b
    by (auto simp: nth_append nth_upd)
qed

lemma step_closing_stays:
  assumes w: "loader_ok l" and st: "step e l = Some (Inr l1)" and b: "b < length (batches l)"
    and d: "closing (batches l ! b)"
  shows "closing (batches l1 ! b)"
proof -
  have c: "cur_ok l" using w by (simp add: loader_ok_def)
  have "batch l \<noteq> Some b" using c d by (auto simp: cur_ok_def)
  then show ?thesis using step_batches[OF w st] b d
    by (auto simp: nth_append nth_upd)
qed


lemma step_done_by_goroutine:
  assumes w: "loader_ok l" and st: "step e l = Some (Inr l1)" and b: "b < length (batches l1)"
    and d: "done_ch (batches l1 ! b)"
  shows "(b < length (batches l) \<and> done_ch (batches l ! b)) \<or> e = Run (StartTimer b) \<or> e = Run (End b)"
proof -
  from step_batches[OF w st] consider
    (same) "batches l1 = batches l"
  | (new) key where "batches l1 = batches l @ [\<lparr>keys = [key], data = [], error = [],
                                         closing = full l 0, done_ch = False\<rparr>]"
  | (app) key b0 where "batches l1 = (batches l)[b0 := (batches l ! b0)
                 \<lparr>keys := keys (batches l ! b0) @ [key],
                  closing := full l (length (keys (batches l ! b0)))\<rparr>]"
  | (fin) t where "e = Run t" "batches l1 = (batches l)[task_batch t := (batches l ! task_batch t)
                 \<lparr>data := fst (fst (fetch l (keys (batches l ! task_batch t)) (heap l))),
                  error := snd (fst (fetch l (keys (batches l ! task_batch t)) (heap l))),
                  done_ch := True\<rparr>]"
    by blast
  then show ?thesis
  proof cases
    case same
    then show ?thesis using b d by simp
  next
    case new
    then show ?thesis using b d by (auto simp: nth_append split: if_splits)
  next
    case app
    then show ?thesis using b d by (cases "b = b0") auto
  next
    case fin
    show ?thesis
    proof (cases "b = task_batch t")
      case True
      then have "t = StartTimer b \<or> t = End b" by (cases t) auto
      with fin(1) show ?thesis by auto
    next
      case False
      then show ?thesis using fin b d by auto
    qed
  qed
qed

lemma step_no_capacity:
  assumes w: "loader_ok l" and st: "step e l = Some (Inr l1)" and m: "maxBatch l = 0"
    and n: "\<forall>bt \<in> set (batches l). \<not> closing bt"
  shows "\<forall>bt \<in> set (batches l1). \<not> closing bt"
proof -
  have f: "\<not> full l n" for n using m by (simp add: full_def)
  from step_batches[OF w st] consider
    (same) "batches l1 = batches l"
  | (new) key where "batches l1 = batches l @ [\<lparr>keys = [key], data = [], error = [],
                                         closing = full l 0, done_ch = False\<rparr>]"
  | (app) key b0 where "batch l = Some b0" "batches l1 = (batches l)[b0 := (batches l ! b0)
                 \<lparr>keys := keys (batches l ! b0) @ [key],
                  closing := full l (length (keys (batches l ! b0)))\<rparr>]"
  | (fin) t where "t \<in> set (goroutines l)" "batches l1 = (batches l)[task_batch t := (batches l ! task_batch t)
                 \<lparr>data := fst (fst (fetch l (keys (batches l ! task_batch t)) (heap l))),
                  error := snd (fst (fetch l (keys (batches l ! task_batch t)) (heap l))),
                  done_ch := True\<rparr>]"
    by blast
  then show ?thesis
  proof cases
    case same
    then show ?thesis using n by simp
  next
    case new
    then show ?thesis using n f by auto
  next
    case app
    have "b0 < length (batches l)" using w app(1) by (auto simp: loader_ok_def cur_ok_def)
    then have "batches l ! b0 \<in> set (batches l)" by simp
    then show ?thesis using n f app(2) by (auto dest!: in_set_upd)
  next
    case fin
    have "task_batch t < length (batches l)"
      using w fin(1) by (auto simp: loader_ok_def intro: tasks_ok_bound)
    then have "batches l ! task_batch t \<in> set (batches l)" by simp
    then show ?thesis using n fin(2) by (auto dest!: in_set_upd)
  qed
qed

lemma run_no_capacity:
  "loader_ok l \<Longrightarrow> maxBatch l = 0 \<Longrightarrow> \<forall>bt \<in> set (batches l). \<not> closing bt \<Longrightarrow>
   run es l = Some (Inr l1) \<Longrightarrow> \<forall>bt \<in> set (batches l1). \<not> closing bt"
proof (induction es arbitrary: l)
  case Nil
  then show ?case by simp
next
  case (Cons e es)
  from Cons.prems(4) obtain l' where s: "step e l = Some (Inr l')" and r: "run es l' = Some (Inr l1)"
    by (auto split: option.splits sum.splits)
  have "maxBatch l' = 0" using step_const[OF s] Cons.prems(2) by simp
  from Cons.IH[OF ok_step[OF Cons.prems(1) s] this step_no_capacity[OF Cons.prems(1) s Cons.prems(2,3)] r]
  show ?case .
qed

lemma run_const:
  "run es l = Some (Inr l1) \<Longrightarrow> maxBatch l1 = maxBatch l \<and> fetch l1 = fetch l"
proof (induction es arbitrary: l)
  case Nil
  then show ?case by simp
next
  case (Cons e es)
  from Cons.prems obtain l' where s: "step e l = Some (Inr l')" and r: "run es l' = Some (Inr l1)"
    by (auto split: option.splits sum.splits)
  from Cons.IH[OF r] step_const[OF s] show ?case by simp
qed

lemma reached_ok:
  assumes "run es (NewDataLoader f w m h) = Some (Inr l)"
  shows "loader_ok l" and "maxBatch l = m" and "fetch l = f"
  using ok_run[OF ok_init assms] run_const[OF assms] by (simp_all add: NewDataLoader_def)

subsection \<open>Keys of a batch\<close>

lemma ex_open_reached:
  "run [Call_LoadThunk 0, Call_LoadThunk 1, Call_LoadThunk 0] (NewDataLoader fetch_letters 5 10 [])
     = Some (Inr ex_open)"
  by (simp add: ex_open_def NewDataLoader_def step_def LoadThunk_def keyIndex_def
      lock_def unlock_def upd_batch_def go_def)

lemma mu_False_id: "\<not> mu l \<Longrightarrow> l\<lparr>mu := False\<rparr> = l"
  by simp

lemma LoadThunk_present:
  assumes w: "loader_ok l" and c: "cache l key = None" and b: "batch l = Some b"
    and k: "key \<in> set (keys (batches l ! b))"
  shows "\<exists>i. LoadThunk key l = (Pending b i key, l) \<and> i < length (keys (batches l ! b))
            \<and> keys (batches l ! b) ! i = key"
proof -
  from k obtain i where i: "find_key key (keys (batches l ! b)) = Some i"
    using find_key_None[of key "keys (batches l ! b)"] by (cases "find_key key (keys (batches l ! b))") auto
  from LoadThunk_dup[OF c b i] ok_not_mu[OF w] have "LoadThunk key l = (Pending b i key, l)" by simp
  with find_key_Some[OF i] show ?thesis by blast
qed

lemma LoadThunk_absent:
  assumes w: "loader_ok l" and c: "cache l key = None" and b: "batch l = Some b"
    and k: "key \<notin> set (keys (batches l ! b))"
  shows "\<exists>l1. LoadThunk key l = (Pending b (length (keys (batches l ! b))) key, l1)
            \<and> keys (batches l1 ! b) = keys (batches l ! b) @ [key]
            \<and> closing (batches l1 ! b) = full l (length (keys (batches l ! b)))
            \<and> batch l1 = (if full l (length (keys (batches l ! b))) then None else Some b)
            \<and> (End b \<in> set (goroutines l1)) = full l (length (keys (batches l ! b)))"
proof -
  have cu: "cur_ok l" and ko: "keys_ok l" and ts: "tasks_ok l" using w by (simp_all add: loader_ok_def)
  have bb: "b < length (batches l)" "\<not> closing (batches l ! b)"
    using cu b by (auto simp: cur_ok_def)
  have kb: "keys (batches l ! b) \<noteq> []" using ko bb(1) by (auto simp: keys_ok_def)
  have nf: "find_key key (keys (batches l ! b)) = None" using k by (simp add: find_key_None)
  have ne: "End b \<notin> set (goroutines l)" using tasks_okD(1)[OF ts bb(1)] bb(2) by simp
  show ?thesis
  proof (cases "full l (length (keys (batches l ! b)))")
    case True
    from LoadThunk_append_full[OF c b nf kb bb True] True bb(1) show ?thesis by simp
  next
    case False
    from LoadThunk_append_open[OF c b nf kb False] False bb ne b show ?thesis by simp
  qed
qed

lemma LoadThunk_fresh:
  assumes c: "cache l key = None" and b: "batch l = None"
  shows "\<exists>l1. LoadThunk key l = (Pending (length (batches l)) 0 key, l1)
            \<and> length (batches l1) = Suc (length (batches l))
            \<and> keys (batches l1 ! length (batches l)) = [key]
            \<and> closing (batches l1 ! length (batches l)) = full l 0
            \<and> batch l1 = (if full l 0 then None else Some (length (batches l)))
            \<and> (full l 0 \<longrightarrow> End (length (batches l)) \<in> set (goroutines l1))"
proof (cases "full l 0")
  case True
  from LoadThunk_new_full[OF c b True] True show ?thesis by simp
next
  case False
  from LoadThunk_new_open[OF c b False] False show ?thesis by simp
qed

text \<open>
  C4. In every state the program reaches, the keys of every batch are pairwise distinct,
  and so are the keys passed to every fetch call made. The keys of a batch only grow at
  the end: every event leaves the keys of a batch a prefix of what they become.
  \<open>LoadThunk\<close> on a key not cached and already in the current batch returns a thunk
  with the index the key has there and changes nothing; on a key not yet there, the key
  goes to the end and the thunk holds that last index.
\<close>

theorem batch_keys_distinct_in_order:
  assumes r: "run es (NewDataLoader f w m h) = Some (Inr l)"
  shows "(\<forall>bt \<in> set (batches l). distinct (keys bt))
       \<and> (\<forall>c \<in> set (calls l). distinct (fst c))
       \<and> (\<forall>e l1 b. step e l = Some (Inr l1) \<longrightarrow> b < length (batches l) \<longrightarrow>
             prefix (keys (batches l ! b)) (keys (batches l1 ! b)))
       \<and> (\<forall>key b. cache l key = None \<longrightarrow> batch l = Some b \<longrightarrow> key \<in> set (keys (batches l ! b)) \<longrightarrow>
             (\<exists>i. LoadThunk key l = (Pending b i key, l) \<and> i < length (keys (batches l ! b))
                 \<and> keys (batches l ! b) ! i = key))
       \<and> (\<forall>key b. cache l key = None \<longrightarrow> batch l = Some b \<longrightarrow> key \<notin> set (keys (batches l ! b)) \<longrightarrow>
             (\<exists>l1. LoadThunk key l = (Pending b (length (keys (batches l ! b))) key, l1)
                 \<and> keys (batches l1 ! b) = keys (batches l ! b) @ [key]))"
proof -
  have w: "loader_ok l" by (rule reached_ok(1)[OF r])
  have 1: "\<forall>bt \<in> set (batches l). distinct (keys bt)"
    using w by (simp add: loader_ok_def keys_ok_def)
  have 2: "\<forall>c \<in> set (calls l). distinct (fst c)"
    using w by (simp add: loader_ok_def calls_ok_def)
  have 3: "\<forall>e l1 b. step e l = Some (Inr l1) \<longrightarrow> b < length (batches l) \<longrightarrow>
             prefix (keys (batches l ! b)) (keys (batches l1 ! b))"
    using step_keys_prefix[OF w] by blast
  have 4: "\<forall>key b. cache l key = None \<longrightarrow> batch l = Some b \<longrightarrow> key \<in> set (keys (batches l ! b)) \<longrightarrow>
             (\<exists>i. LoadThunk key l = (Pending b i key, l) \<and> i < length (keys (batches l ! b))
                 \<and> keys (batches l ! b) ! i = key)"
    using LoadThunk_present[OF w] by blast
  have 5: "\<forall>key b. cache l key = None \<longrightarrow> batch l = Some b \<longrightarrow> key \<notin> set (keys (batches l ! b)) \<longrightarrow>
             (\<exists>l1. LoadThunk key l = (Pending b (length (keys (batches l ! b))) key, l1)
                 \<and> keys (batches l1 ! b) = keys (batches l ! b) @ [key])"
  proof (intro allI impI)
    fix key b assume "cache l key = None" "batch l = Some b" "key \<notin> set (keys (batches l ! b))"
    from LoadThunk_absent[OF w this]
    show "\<exists>l1. LoadThunk key l = (Pending b (length (keys (batches l ! b))) key, l1)
                 \<and> keys (batches l1 ! b) = keys (batches l ! b) @ [key]" by blast
  qed
  from 1 2 3 4 5 show ?thesis by blast
qed

theorem batch_keys_distinct_in_order_witness:
  "run [Call_LoadThunk 0, Call_LoadThunk 1, Call_LoadThunk 0] (NewDataLoader fetch_letters 5 10 [])
     = Some (Inr ex_open)
   \<and> keys (batches ex_open ! 0) = [0, 1] \<and> distinct (keys (batches ex_open ! 0))
   \<and> LoadThunk 1 ex_open = (Pending 0 1 1, ex_open)
   \<and> fst (LoadThunk 2 ex_open) = Pending 0 2 2
   \<and> keys (batches (snd (LoadThunk 2 ex_open)) ! 0) = [0, 1, 2]"
proof -
  note t = batch_keys_distinct_in_order[OF ex_open_reached]
  have k: "keys (batches ex_open ! 0) = [0, 1]" "cache ex_open 1 = None" "cache ex_open 2 = None"
    "batch ex_open = Some 0" "batches ex_open ! 0 \<in> set (batches ex_open)"
    by (simp_all add: ex_open_def)
  from t k(5) have d: "distinct (keys (batches ex_open ! 0))" by blast
  from t k obtain i where i: "LoadThunk 1 ex_open = (Pending 0 i 1, ex_open)"
    "i < length (keys (batches ex_open ! 0))" "keys (batches ex_open ! 0) ! i = 1"
    by (metis list.set_intros(1) list.set_intros(2))
  have "i = 1" using i(2,3) k(1) by (cases i) auto
  from t k obtain l1 where l1: "LoadThunk 2 ex_open = (Pending 0 (length (keys (batches ex_open ! 0))) 2, l1)"
    "keys (batches l1 ! 0) = keys (batches ex_open ! 0) @ [2]"
    by (metis (no_types, lifting) insert_iff list.simps(15) empty_iff empty_set numeral_eq_iff
        one_eq_numeral_iff semiring_norm(85) zero_neq_numeral)
  show ?thesis using ex_open_reached k(1) d i(1) \<open>i = 1\<close> l1 by simp
qed

subsection \<open>The batch limit\<close>

lemmas eval_defs = NewDataLoader_def step_def LoadThunk_def keyIndex_def startTimer_def
  end_batch_def lock_def unlock_def upd_batch_def go_def fetch_letters_def letter_values

lemma ex_one_reached:
  "run [Call_LoadThunk 0] (NewDataLoader fetch_letters 50 2 []) = Some (Inr ex_one)"
  by (simp add: ex_one_def eval_defs)

lemma ex_capped_reached:
  "run [Call_LoadThunk 0, Call_LoadThunk 1, Call_LoadThunk 2, Run (End 0), Run (StartTimer 0),
        Run (StartTimer 1)] (NewDataLoader fetch_letters 50 2 []) = Some (Inr ex_capped)"
  by (simp add: ex_capped_def eval_defs)

lemma ex_nocap_reached:
  "run [Call_LoadThunk 0, Call_LoadThunk 1, Call_LoadThunk 2, Run (StartTimer 0)]
     (NewDataLoader fetch_letters 50 0 []) = Some (Inr ex_nocap)"
  by (simp add: ex_nocap_def eval_defs)

lemma full_pos: "0 < sint (maxBatch l) \<Longrightarrow> full l n \<longleftrightarrow> sint (maxBatch l) \<le> int n + 1"
  by (auto simp: full_def sint_dec)

text \<open>
  C2. In every state the program reaches, with \<open>maxBatch = m\<close>. When \<open>m\<close> is
  positive: every fetch call made had at most \<open>m\<close> keys; the current batch has fewer
  than \<open>m\<close>; and the \<open>LoadThunk\<close> after which a batch has \<open>m\<close> keys has set the
  batch's \<open>closing\<close>, cleared the loader's \<open>batch\<close> and started \<open>end\<close> on the
  batch. No event resets \<open>closing\<close> or adds a key to a batch whose \<open>closing\<close> is
  set, and once the loader's \<open>batch\<close> is cleared, \<open>LoadThunk\<close> on a key not cached
  allocates a new batch that starts with this key. When \<open>m\<close> is zero: no batch has \<open>closing\<close> set, no \<open>end\<close>
  goroutine exists, and a batch is completed by its \<open>startTimer\<close> only.
\<close>

theorem capacity_closes_the_batch:
  assumes r: "run es (NewDataLoader f w m h) = Some (Inr l)"
  shows "(0 < sint m \<longrightarrow>
            (\<forall>c \<in> set (calls l). int (length (fst c)) \<le> sint m)
          \<and> (\<forall>b. batch l = Some b \<longrightarrow> int (length (keys (batches l ! b))) < sint m)
          \<and> (\<forall>key b pos l1. cache l key = None \<longrightarrow> LoadThunk key l = (Pending b pos key, l1) \<longrightarrow>
                int (length (keys (batches l1 ! b))) = sint m \<longrightarrow>
                closing (batches l1 ! b) \<and> batch l1 = None \<and> End b \<in> set (goroutines l1)))
       \<and> (\<forall>e l1 b. step e l = Some (Inr l1) \<longrightarrow> b < length (batches l) \<longrightarrow>
             closing (batches l ! b) \<longrightarrow>
             closing (batches l1 ! b) \<and> keys (batches l1 ! b) = keys (batches l ! b))
       \<and> (\<forall>key. cache l key = None \<longrightarrow> batch l = None \<longrightarrow>
             (\<exists>l1. LoadThunk key l = (Pending (length (batches l)) 0 key, l1)
                \<and> length (batches l1) = Suc (length (batches l))
                \<and> keys (batches l1 ! length (batches l)) = [key]))
       \<and> (m = 0 \<longrightarrow>
             (\<forall>bt \<in> set (batches l). \<not> closing bt)
           \<and> (\<forall>b. End b \<notin> set (goroutines l))
           \<and> (\<forall>e l1 b. step e l = Some (Inr l1) \<longrightarrow> b < length (batches l1) \<longrightarrow>
                 done_ch (batches l1 ! b) \<longrightarrow>
                 b < length (batches l) \<and> done_ch (batches l ! b) \<or> e = Run (StartTimer b)))"
proof -
  have w: "loader_ok l" and mb: "maxBatch l = m" using reached_ok[OF r] by simp_all
  have cu: "cur_ok l" and ko: "keys_ok l" and co: "calls_ok l" and ts: "tasks_ok l"
    using w by (simp_all add: loader_ok_def)
  have A: "\<forall>c \<in> set (calls l). int (length (fst c)) \<le> sint m" if "0 < sint m"
    using co that mb by (simp add: calls_ok_def)
  have B: "int (length (keys (batches l ! b))) < sint m" if p: "0 < sint m" and b: "batch l = Some b" for b
  proof -
    have bb: "b < length (batches l)" "\<not> full l (length (keys (batches l ! b)) - 1)"
      using cu b by (auto simp: cur_ok_def)
    have "keys (batches l ! b) \<noteq> []" using ko bb(1) by (auto simp: keys_ok_def)
    then have "int (length (keys (batches l ! b)) - 1) + 1 = int (length (keys (batches l ! b)))"
      by (cases "keys (batches l ! b)") auto
    with bb(2) p mb show ?thesis by (simp add: full_pos)
  qed
  have C: "closing (batches l1 ! b) \<and> batch l1 = None \<and> End b \<in> set (goroutines l1)"
    if p: "0 < sint m" and c: "cache l key = None" and lt: "LoadThunk key l = (Pending b pos key, l1)"
      and n: "int (length (keys (batches l1 ! b))) = sint m" for key b pos l1
  proof (cases "batch l")
    case None
    from LoadThunk_fresh[OF c None] lt have
      b: "b = length (batches l)" and k: "keys (batches l1 ! b) = [key]"
      and cl: "closing (batches l1 ! b) = full l 0"
      and cb: "batch l1 = (if full l 0 then None else Some (length (batches l)))"
      and e: "full l 0 \<longrightarrow> End b \<in> set (goroutines l1)" by auto
    have "full l 0" using n k p mb by (simp add: full_pos)
    with cl cb e show ?thesis by simp
  next
    case (Some b0)
    show ?thesis
    proof (cases "key \<in> set (keys (batches l ! b0))")
      case True
      from LoadThunk_present[OF w c Some True] lt have "b = b0" "l1 = l" by auto
      with B[OF p Some] n show ?thesis by simp
    next
      case False
      from LoadThunk_absent[OF w c Some False] lt have
        b: "b = b0" and k: "keys (batches l1 ! b) = keys (batches l ! b0) @ [key]"
        and cl: "closing (batches l1 ! b) = full l (length (keys (batches l ! b0)))"
        and cb: "batch l1 = (if full l (length (keys (batches l ! b0))) then None else Some b0)"
        and e: "(End b \<in> set (goroutines l1)) = full l (length (keys (batches l ! b0)))" by auto
      have "full l (length (keys (batches l ! b0)))" using n k p mb by (simp add: full_pos)
      with cl cb e show ?thesis by simp
    qed
  qed
  have D: "\<forall>e l1 b. step e l = Some (Inr l1) \<longrightarrow> b < length (batches l) \<longrightarrow>
             closing (batches l ! b) \<longrightarrow>
             closing (batches l1 ! b) \<and> keys (batches l1 ! b) = keys (batches l ! b)"
    using step_detached_keys[OF w] step_closing_stays[OF w] by blast
  have E: "\<forall>key. cache l key = None \<longrightarrow> batch l = None \<longrightarrow>
             (\<exists>l1. LoadThunk key l = (Pending (length (batches l)) 0 key, l1)
                \<and> length (batches l1) = Suc (length (batches l))
                \<and> keys (batches l1 ! length (batches l)) = [key])"
  proof (intro allI impI)
    fix key assume "cache l key = None" "batch l = None"
    from LoadThunk_fresh[OF this]
    show "\<exists>l1. LoadThunk key l = (Pending (length (batches l)) 0 key, l1)
                \<and> length (batches l1) = Suc (length (batches l))
                \<and> keys (batches l1 ! length (batches l)) = [key]" by blast
  qed
  have F: "(\<forall>bt \<in> set (batches l). \<not> closing bt)
           \<and> (\<forall>b. End b \<notin> set (goroutines l))
           \<and> (\<forall>e l1 b. step e l = Some (Inr l1) \<longrightarrow> b < length (batches l1) \<longrightarrow>
                 done_ch (batches l1 ! b) \<longrightarrow>
                 b < length (batches l) \<and> done_ch (batches l ! b) \<or> e = Run (StartTimer b))"
    if z: "m = 0"
  proof -
    have nc: "\<forall>bt \<in> set (batches l). \<not> closing bt"
      using run_no_capacity[OF ok_init _ _ r] z by (simp add: NewDataLoader_def)
    have ne: "End b \<notin> set (goroutines l)" for b
    proof (cases "b < length (batches l)")
      case True
      then have "batches l ! b \<in> set (batches l)" by simp
      with nc tasks_okD(1)[OF ts True] show ?thesis by blast
    next
      case False
      then show ?thesis using tasks_ok_bound[OF ts, of "End b"] by auto
    qed
    have dn: "b < length (batches l) \<and> done_ch (batches l ! b) \<or> e = Run (StartTimer b)"
      if st: "step e l = Some (Inr l1)" and b: "b < length (batches l1)" and d: "done_ch (batches l1 ! b)"
      for e l1 b
    proof -
      from step_done_by_goroutine[OF w st b d] consider
        "b < length (batches l) \<and> done_ch (batches l ! b)" | "e = Run (StartTimer b)" | "e = Run (End b)"
        by blast
      then show ?thesis
      proof cases
        case 3
        with st have "End b \<in> set (goroutines l)" by (auto simp: step_def split: if_splits)
        with ne show ?thesis by simp
      qed auto
    qed
    from nc ne dn show ?thesis by blast
  qed
  from A B C D E F show ?thesis by blast
qed

lemma LoadThunk_ex_one: "LoadThunk 1 ex_one = (Pending 0 1 1, ex_two)"
  by (simp add: ex_one_def ex_two_def eval_defs)

theorem capacity_closes_the_batch_witness:
  "run [Call_LoadThunk 0, Call_LoadThunk 1, Call_LoadThunk 2, Run (End 0), Run (StartTimer 0),
        Run (StartTimer 1)] (NewDataLoader fetch_letters 50 2 []) = Some (Inr ex_capped)
   \<and> calls ex_capped = [([0, 1], False), ([2], True)]
   \<and> int (length [0, 1 :: nat]) \<le> sint (2 :: 64 word) \<and> int (length [2 :: nat]) \<le> sint (2 :: 64 word)
   \<and> run [Call_LoadThunk 0] (NewDataLoader fetch_letters 50 2 []) = Some (Inr ex_one)
   \<and> LoadThunk 1 ex_one = (Pending 0 1 1, ex_two)
   \<and> closing (batches ex_two ! 0) \<and> batch ex_two = None \<and> End 0 \<in> set (goroutines ex_two)
   \<and> run [Call_LoadThunk 0, Call_LoadThunk 1, Call_LoadThunk 2, Run (StartTimer 0)]
        (NewDataLoader fetch_letters 50 0 []) = Some (Inr ex_nocap)
   \<and> keys (batches ex_nocap ! 0) = [0, 1, 2] \<and> \<not> closing (batches ex_nocap ! 0)"
proof -
  have p: "0 < sint (2 :: 64 word)" by simp
  note t1 = capacity_closes_the_batch[OF ex_capped_reached]
  note t2 = capacity_closes_the_batch[OF ex_one_reached]
  note t3 = capacity_closes_the_batch[OF ex_nocap_reached]
  have c: "calls ex_capped = [([0, 1], False), ([2], True)]" by (simp add: ex_capped_def)
  from t1 p have "\<forall>c \<in> set (calls ex_capped). int (length (fst c)) \<le> sint (2 :: 64 word)" by blast
  with c have a: "int (length [0, 1 :: nat]) \<le> sint (2 :: 64 word)" "int (length [2 :: nat]) \<le> sint (2 :: 64 word)"
    by simp_all
  have h: "cache ex_one 1 = None" "int (length (keys (batches ex_two ! 0))) = sint (2 :: 64 word)"
    by (simp_all add: ex_one_def ex_two_def)
  from t2 p h LoadThunk_ex_one
  have b: "closing (batches ex_two ! 0) \<and> batch ex_two = None \<and> End 0 \<in> set (goroutines ex_two)"
    by blast
  have k: "keys (batches ex_nocap ! 0) = [0, 1, 2]" "batches ex_nocap ! 0 \<in> set (batches ex_nocap)"
    by (simp_all add: ex_nocap_def)
  from t3 k(2) have n: "\<not> closing (batches ex_nocap ! 0)" by blast
  show ?thesis
    using ex_capped_reached c a ex_one_reached LoadThunk_ex_one b ex_nocap_reached k(1) n
    by blast
qed

subsection \<open>LoadAll\<close>




































subsection \<open>The default format of an aggregate error\<close>





















subsection \<open>The mutex at the fetch call\<close>

lemma fetch_call_by_path:
  assumes w: "loader_ok l" and st: "step e l = Some (Inr l1)"
  shows "calls l1 = calls l
       \<or> (\<exists>b. e = Run (StartTimer b) \<and> calls l1 = calls l @ [(keys (batches l ! b), True)])
       \<or> (\<exists>b. e = Run (End b) \<and> calls l1 = calls l @ [(keys (batches l ! b), False)])"
proof (cases e)
  case (Call_LoadThunk key)
  then show ?thesis using st
    by (auto simp: step_def LoadThunk_def keyIndex_def Let_def lock_def unlock_def go_def
        upd_batch_def split: option.splits if_splits prod.splits)
next
  case (Call_thunk n)
  with st obtain r where ct: "call_thunk (issued l ! n) l = Some (Inr (r, l1))"
    by (auto simp: step_def split: if_splits option.splits sum.splits)
  from call_thunk_frame[OF ct] show ?thesis by simp
next
  case (Call_Prime key val)
  with st obtain ok where p: "Prime key val l = Inr (ok, l1)"
    by (auto simp: step_def split: sum.splits)
  from Prime_frame[OF p] show ?thesis by simp
next
  case (Call_Clear key)
  with st have p: "Clear key l = l1" by (simp add: step_def)
  from Clear_frame[OF p] show ?thesis by simp
next
  case (Run t)
  have m: "\<not> mu l" by (rule ok_not_mu[OF w])
  show ?thesis
  proof (cases t)
    case (StartTimer b)
    with Run st have "calls l1 = calls l \<or> calls l1 = calls l @ [(keys (batches l ! b), True)]"
      by (auto simp: step_def startTimer_def end_batch_def Let_def lock_def unlock_def
          upd_batch_def split: if_splits sum.splits)
    with Run StartTimer show ?thesis by auto
  next
    case (End b)
    with Run st m have "calls l1 = calls l @ [(keys (batches l ! b), False)]"
      by (auto simp: step_def end_batch_def Let_def upd_batch_def split: if_splits sum.splits)
    with Run End show ?thesis by auto
  qed
qed

text \<open>
  C3 fails on the timeout path. After \<open>LoadThunk(7)\<close> the mutex is free and no fetch
  call has been made; then \<open>startTimer\<close> runs for the batch, and the fetch call it makes
  through \<open>end\<close> is recorded with the mutex locked: \<open>startTimer\<close> locks, defers the
  unlock, and calls \<open>end\<close> before it returns. On the capacity path the call is made with
  the mutex free (\<open>fetch_call_by_path\<close>).
\<close>

theorem startTimer_fetches_with_mutex_locked:
  "run [Call_LoadThunk 7] (NewDataLoader fetch_short 5 10 []) = Some (Inr ex_waiting)
   \<and> mu ex_waiting = False \<and> calls ex_waiting = []
   \<and> step (Run (StartTimer 0)) ex_waiting = Some (Inr ex_short)
   \<and> calls ex_short = [([7], True)]"
  by (simp add: ex_waiting_def ex_short_def NewDataLoader_def step_def LoadThunk_def keyIndex_def
      startTimer_def end_batch_def fetch_short_def lock_def unlock_def upd_batch_def go_def)

end
